theory Spec2Isabelle
  imports Complex_Main "HOL-Library.AList" "HOL-Library.Char_ord" "HOL-Library.List_Lexorder"
begin

unbundle bit_operations_syntax

section \<open>Values shared by the path authority and the walker\<close>

text \<open>
  Priorities are Python floats with the two sentinels \<open>INF\<close> and \<open>-INF\<close>
  (\<open>refinery.constants.INF\<close>). They are modelled as the reals extended with the two
  infinities; rounding and NaN of the float type are outside the model, so
  \<open>float(priority)\<close> is the identity here.
\<close>

datatype priority = NegInf | Fin real | PosInf

fun prio_le :: "priority \<Rightarrow> priority \<Rightarrow> bool" where
  "prio_le NegInf _ = True"
| "prio_le _ PosInf = True"
| "prio_le (Fin a) (Fin b) = (a \<le> b)"
| "prio_le _ _ = False"

instantiation priority :: linorder
begin

definition less_eq_priority :: "priority \<Rightarrow> priority \<Rightarrow> bool" where
  "less_eq_priority a b = prio_le a b"

definition less_priority :: "priority \<Rightarrow> priority \<Rightarrow> bool" where
  "less_priority a b = (prio_le a b \<and> \<not> prio_le b a)"

instance
proof
  fix x y z :: priority
  show "(x < y) = (x \<le> y \<and> \<not> y \<le> x)"
    by (simp add: less_eq_priority_def less_priority_def)
  show "x \<le> x"
    by (cases x) (simp_all add: less_eq_priority_def)
  show "x \<le> y \<Longrightarrow> y \<le> z \<Longrightarrow> x \<le> z"
    by (cases x; cases y; cases z) (simp_all add: less_eq_priority_def)
  show "x \<le> y \<Longrightarrow> y \<le> x \<Longrightarrow> x = y"
    by (cases x; cases y) (simp_all add: less_eq_priority_def)
  show "x \<le> y \<or> y \<le> x"
    by (cases x; cases y) (auto simp: less_eq_priority_def)
qed

end

text \<open>Every \<open>raise\<close> of the source and every exception of the interpreter is a value.\<close>

datatype error =
    KeyError
  | ValueError
  | PathTooNested
  | AttributeError
  | TypeError
  | IndexError

subsection \<open>Strings\<close>

text \<open>
  \<open>str.lower\<close>, \<open>str.strip\<close>, \<open>str.rsplit\<close> and \<open>'%s' % n\<close> of the Python
  standard library, on ASCII strings.
\<close>

definition lower_char :: "char \<Rightarrow> char" where
  "lower_char c =
     (case map_of (zip ''ABCDEFGHIJKLMNOPQRSTUVWXYZ'' ''abcdefghijklmnopqrstuvwxyz'') c of
        None \<Rightarrow> c
      | Some l \<Rightarrow> l)"

definition lower :: "string \<Rightarrow> string" where
  "lower s = map lower_char s"

definition is_space :: "char \<Rightarrow> bool" where
  "is_space c =
     (c \<in> set [CHR 0x09, CHR 0x0A, CHR 0x0B, CHR 0x0C, CHR 0x0D,
                CHR 0x1C, CHR 0x1D, CHR 0x1E, CHR 0x1F, CHR '' ''])"

definition strip_chars :: "(char \<Rightarrow> bool) \<Rightarrow> string \<Rightarrow> string" where
  "strip_chars P s = rev (dropWhile P (rev (dropWhile P s)))"

definition strip :: "string \<Rightarrow> string" where
  "strip s = strip_chars is_space s"

definition DIGIT_CHARS :: string where
  "DIGIT_CHARS = ''0123456789''"

definition DIGIT_US_CHARS :: string where
  "DIGIT_US_CHARS = DIGIT_CHARS @ ''_''"

definition startswith :: "string \<Rightarrow> string \<Rightarrow> bool" where
  "startswith s p = (take (length p) s = p)"

text \<open>\<open>s.rsplit(c, 1)\<close>: split at the last occurrence of \<open>c\<close>, if there is one.\<close>

definition rsplit1 :: "char \<Rightarrow> string \<Rightarrow> string list" where
  "rsplit1 c s =
     (if c \<in> set s
      then [rev (tl (dropWhile (\<lambda>x. x \<noteq> c) (rev s))), rev (takeWhile (\<lambda>x. x \<noteq> c) (rev s))]
      else [s])"

definition digit_char :: "nat \<Rightarrow> char" where
  "digit_char d = DIGIT_CHARS ! d"

function string_of_nat :: "nat \<Rightarrow> string" where
  "string_of_nat n =
     (if n < 10 then [digit_char n] else string_of_nat (n div 10) @ [digit_char (n mod 10)])"
  by pat_completeness auto
termination
  by (relation "measure id") auto

declare string_of_nat.simps [simp del]

subsection \<open>Windows paths\<close>

text \<open>
  \<open>pathlib.PureWindowsPath\<close> of the Python standard library, for the relative paths
  without drive and root that tag paths are: the parts of a path are its pieces between
  separators, empty pieces and \<open>.\<close> pieces dropped; the string of a path joins its
  parts with a backslash and is \<open>.\<close> for the empty path.
\<close>

definition is_sep :: "char \<Rightarrow> bool" where
  "is_sep c = (c = CHR 0x5C \<or> c = CHR ''/'')"

fun split_sep :: "string \<Rightarrow> string list" where
  "split_sep [] = [[]]"
| "split_sep (c # cs) =
     (if is_sep c then [] # split_sep cs
      else (case split_sep cs of p # ps \<Rightarrow> (c # p) # ps | [] \<Rightarrow> [[c]]))"

definition win_parts :: "string \<Rightarrow> string list" where
  "win_parts s = filter (\<lambda>p. p \<noteq> [] \<and> p \<noteq> ''.'') (split_sep s)"

fun join_sep :: "string list \<Rightarrow> string" where
  "join_sep [] = []"
| "join_sep [p] = p"
| "join_sep (p # ps) = p @ [CHR 0x5C] @ join_sep ps"

text \<open>\<open>str(PureWindowsPath(*pieces))\<close>: every piece is parsed again.\<close>

definition win_str :: "string list \<Rightarrow> string" where
  "win_str pieces =
     (let ps = concat (map win_parts pieces) in if ps = [] then ''.'' else join_sep ps)"


section \<open>The path authority: \<open>TagPathHandler\<close>\<close>

text \<open>
  A Python \<open>dict\<close> whose iteration order matters is an association list with distinct
  keys in insertion order: \<open>d.get(k)\<close> is \<open>map_of d k\<close>, \<open>d[k] = v\<close> is
  \<open>AList.update k v d\<close> (in place for a key that is there, appended otherwise) and
  \<open>d.pop(k, None)\<close> is \<open>AList.delete k d\<close>.
\<close>

text \<open>
  Modelled from the spec: \<open>refinery.util.get_unique_name\<close> is imported, its source is
  not part of the repository files at hand. The spec has it probe increasing numeric
  suffixes behind a reserved separator until the name is unused; an entry counts as
  unused when its value is \<open>None\<close> or the current value (\<open>free\<close>).
\<close>

definition unique_sep :: string where
  "unique_sep = '' #''"

definition key_used :: "(string \<times> 'v) list \<Rightarrow> ('v \<Rightarrow> bool) \<Rightarrow> string \<Rightarrow> bool" where
  "key_used collection free k =
     (case map_of collection k of None \<Rightarrow> False | Some v \<Rightarrow> \<not> free v)"

definition nat_of_digits :: "string \<Rightarrow> nat" where
  "nat_of_digits ds = foldl (\<lambda>a c. 10 * a + length (takeWhile (\<lambda>x. x \<noteq> c) DIGIT_CHARS)) 0 ds"

lemma digit_char_inverse:
  "d < 10 \<Longrightarrow> length (takeWhile (\<lambda>x. x \<noteq> digit_char d) DIGIT_CHARS) = d"
proof -
  assume "d < 10"
  then consider "d = 0" | "d = 1" | "d = 2" | "d = 3" | "d = 4"
    | "d = 5" | "d = 6" | "d = 7" | "d = 8" | "d = 9"
    by atomize_elim arith
  then show ?thesis
    by cases (simp_all add: digit_char_def DIGIT_CHARS_def)
qed

lemma nat_of_digits_string_of_nat: "nat_of_digits (string_of_nat n) = n"
proof (induction n rule: string_of_nat.induct)
  case (1 n)
  show ?case
  proof (cases "n < 10")
    case True
    then show ?thesis
      by (simp add: string_of_nat.simps [of n] nat_of_digits_def digit_char_inverse)
  next
    case False
    then have "nat_of_digits (string_of_nat (n div 10)) = n div 10"
      using "1.IH" by simp
    then show ?thesis
      using False
      by (simp add: string_of_nat.simps [of n] nat_of_digits_def digit_char_inverse)
  qed
qed

lemma string_of_nat_inj: "string_of_nat m = string_of_nat n \<Longrightarrow> m = n"
  by (metis nat_of_digits_string_of_nat)

lemma finite_used_candidates:
  "finite {j. (name @ unique_sep @ string_of_nat j @ ext) \<in> fst ` set (collection :: (string \<times> 'v) list)}"
proof -
  have "inj (\<lambda>j. name @ unique_sep @ string_of_nat j @ ext)"
    by (auto simp: inj_on_def dest: string_of_nat_inj)
  then have "finite ((\<lambda>j. name @ unique_sep @ string_of_nat j @ ext) -` (fst ` set collection))"
    by (intro finite_vimageI) simp_all
  then show ?thesis
    by (simp add: vimage_def)
qed

text \<open>
  Modelled from the spec: the loop of \<open>get_unique_name\<close>, probing \<open>name\<close>, then
  \<open>name #1\<close>, \<open>name #2\<close> and so on, each with \<open>ext\<close> appended, until the
  collection has no entry in use under it. It ends because the collection is finite and
  the candidates are all different.
\<close>

function get_unique_name_loop ::
  "(string \<times> 'v) list \<Rightarrow> ('v \<Rightarrow> bool) \<Rightarrow> string \<Rightarrow> string \<Rightarrow> string \<Rightarrow> nat \<Rightarrow> string" where
  "get_unique_name_loop collection free name ext final_name i =
     (if key_used collection free (final_name @ ext)
      then get_unique_name_loop collection free name ext
             (name @ unique_sep @ string_of_nat i) (Suc i)
      else final_name)"
  by pat_completeness auto
termination
proof (relation "measure (\<lambda>(collection, free, name, ext, final_name, i).
    2 * card {j. i \<le> j \<and> (name @ unique_sep @ string_of_nat j @ ext) \<in> fst ` set collection}
    + (if (final_name @ ext) \<in> fst ` set collection then 1 else 0))", goal_cases)
  case 1
  show ?case by simp
next
  case (2 collection free name ext final_name i)
  let ?K = "fst ` set collection"
  let ?U = "\<lambda>i. {j. i \<le> j \<and> (name @ unique_sep @ string_of_nat j @ ext) \<in> ?K}"
  have fin: "finite (?U i)"
    using finite_used_candidates [of name ext collection] by simp
  from 2 have used: "(final_name @ ext) \<in> ?K"
    by (force simp: key_used_def split: option.splits dest: map_of_SomeD)
  show ?case
  proof (cases "(name @ unique_sep @ string_of_nat i @ ext) \<in> ?K")
    case True
    have "?U (Suc i) \<subset> ?U i"
      using True by (auto simp: Suc_le_eq)
    then have "card (?U (Suc i)) < card (?U i)"
      using fin by (rule psubset_card_mono [rotated])
    then show ?thesis
      using used True by simp
  next
    case False
    have "?U (Suc i) \<subseteq> ?U i"
      by auto
    then have "card (?U (Suc i)) \<le> card (?U i)"
      using fin by (intro card_mono)
    then show ?thesis
      using used False by simp
  qed
qed

declare get_unique_name_loop.simps [simp del]

definition get_unique_name ::
  "(string \<times> 'v) list \<Rightarrow> ('v \<Rightarrow> bool) \<Rightarrow> string \<Rightarrow> string \<Rightarrow> string" where
  "get_unique_name collection free name ext = get_unique_name_loop collection free name ext name 1"

subsection \<open>State\<close>

text \<open>
  An entry of the tag index array: the fields the handler reads and writes. The entries
  are objects shared with the caller; the handler writes \<open>path\<close> only.
\<close>

record tag_ref =
  path :: string
  class_1 :: string
  indexed :: bool

record handler =
  root_dir_prefix :: string
  path_map :: "(string \<times> nat) list"
  index_map :: "tag_ref list"
  priorities :: "nat \<rightharpoonup> priority"
  priority_mins :: "nat \<rightharpoonup> priority"
  perm_suffixed_tag_classes :: "string set"
  def_priority :: priority
  overwritables :: "nat \<rightharpoonup> bool"

fun init_loop :: "tag_ref list \<Rightarrow> nat \<Rightarrow> handler \<Rightarrow> handler" where
  "init_loop [] i s = s"
| "init_loop (ref # refs) i s =
     (let p = lower (path ref @ ''.'' @ class_1 ref);
          priority = (if indexed ref then PosInf else def_priority s)
      in init_loop refs (Suc i)
           (s\<lparr>path_map := AList.update p i (path_map s),
              priorities := (priorities s)(i \<mapsto> priority),
              priority_mins := (priority_mins s)(i \<mapsto> priority),
              overwritables := (overwritables s)(i \<mapsto> \<not> indexed ref)\<rparr>))"

text \<open>\<open>__init__(tag_index_array, def_priority, priorities, priority_mins, perm_suffixed_tag_classes)\<close>\<close>

definition init ::
  "tag_ref list \<Rightarrow> priority \<Rightarrow> (nat \<rightharpoonup> priority) \<Rightarrow> (nat \<rightharpoonup> priority) \<Rightarrow> string set \<Rightarrow> handler" where
  "init tag_index_array def_prio prios prio_mins perm_classes =
     init_loop tag_index_array 0
       \<lparr>root_dir_prefix = [], path_map = [], index_map = tag_index_array,
        priorities = prios, priority_mins = prio_mins,
        perm_suffixed_tag_classes = perm_classes, def_priority = def_prio,
        overwritables = Map.empty\<rparr>"

text \<open>The setter of the \<open>root_dir_prefix\<close> property.\<close>

definition set_root_dir_prefix :: "handler \<Rightarrow> string \<Rightarrow> handler" where
  "set_root_dir_prefix s v =
     (let v' = rev (dropWhile (\<lambda>c. c = CHR 0x5C) (rev (lower (win_str [v]))))
      in s\<lparr>root_dir_prefix := (if v' \<noteq> [] then v' @ [CHR 0x5C] else [])\<rparr>)"

subsection \<open>Accessors\<close>

text \<open>An identity is \<open>None\<close> or a Python integer; \<open>index & 0xFFff\<close> keeps its low 16 bits.\<close>

definition mask_index :: "int \<Rightarrow> nat" where
  "mask_index i = nat (i AND 0xFFFF)"

definition get_index_ref :: "handler \<Rightarrow> int option \<Rightarrow> tag_ref option" where
  "get_index_ref s index =
     (case index of
        None \<Rightarrow> None
      | Some i \<Rightarrow>
          (if mask_index i < length (index_map s) then Some (index_map s ! mask_index i)
           else None))"

definition get_priority :: "handler \<Rightarrow> int option \<Rightarrow> priority \<Rightarrow> priority" where
  "get_priority s index dflt =
     (case index of
        None \<Rightarrow> dflt
      | Some i \<Rightarrow> (case priorities s (mask_index i) of None \<Rightarrow> dflt | Some p \<Rightarrow> p))"

definition get_priority_min :: "handler \<Rightarrow> int option \<Rightarrow> priority \<Rightarrow> priority" where
  "get_priority_min s index dflt =
     (case index of
        None \<Rightarrow> dflt
      | Some i \<Rightarrow> (case priority_mins s (mask_index i) of None \<Rightarrow> dflt | Some p \<Rightarrow> p))"

definition get_overwritable :: "handler \<Rightarrow> int option \<Rightarrow> bool" where
  "get_overwritable s index =
     (case index of
        None \<Rightarrow> False
      | Some i \<Rightarrow> (case overwritables s (mask_index i) of None \<Rightarrow> False | Some b \<Rightarrow> b))"

text \<open>
  \<open>dirs\<close> and \<open>root_dirs\<close> are tuples (\<open>PureWindowsPath.parts\<close>), and a tuple has no
  \<open>pop\<close>: the first turn of the loop raises \<open>AttributeError\<close>.
\<close>

definition get_sub_dir :: "handler \<Rightarrow> int option \<Rightarrow> string \<Rightarrow> error + string" where
  "get_sub_dir s index root_dir =
     (case get_index_ref s index of
        None \<Rightarrow> Inr []
      | Some tag_ref \<Rightarrow>
          (let root_dirs = win_parts root_dir;
               dirs = butlast (win_parts (path tag_ref))
           in if (dirs \<noteq> [] \<and> root_dirs \<noteq> []) \<and> hd dirs = hd root_dirs
              then Inl AttributeError
              else if dirs = [] then Inr []
              else Inr (win_str dirs @ [CHR 0x5C])))"

text \<open>\<open>PureWindowsPath(tag_ref.path).name\<close>\<close>

definition get_basename :: "handler \<Rightarrow> int option \<Rightarrow> string" where
  "get_basename s index =
     (case get_index_ref s index of
        None \<Rightarrow> []
      | Some tag_ref \<Rightarrow>
          (let ps = win_parts (path tag_ref) in if ps = [] then [] else last ps))"

definition get_will_overwrite ::
  "handler \<Rightarrow> int option \<Rightarrow> priority option \<Rightarrow> bool \<Rightarrow> error + bool" where
  "get_will_overwrite s index priority override =
     (if index = None then Inr False
      else
        (let priority = (case priority of None \<Rightarrow> def_priority s | Some p \<Rightarrow> p)
         in if \<not> get_overwritable s index then Inr False
            else if get_priority s index NegInf > priority then Inr False
            else if get_priority s index NegInf = priority then
              (if \<not> override then Inr False else Inr True)
            else
              (case get_index_ref s index of
                 None \<Rightarrow> Inl AttributeError
               | Some tag_ref \<Rightarrow>
                   (if indexed tag_ref \<and> \<not> override then Inr False else Inr True))))"

subsection \<open>Mutators\<close>

definition set_priority :: "handler \<Rightarrow> int option \<Rightarrow> priority \<Rightarrow> handler" where
  "set_priority s index priority =
     (case index of
        None \<Rightarrow> s
      | Some i \<Rightarrow>
          (if mask_index i < length (index_map s)
           then s\<lparr>priorities := (priorities s)(mask_index i \<mapsto> priority)\<rparr>
           else s))"

definition set_priority_min :: "handler \<Rightarrow> int option \<Rightarrow> priority \<Rightarrow> handler" where
  "set_priority_min s index priority =
     (case index of
        None \<Rightarrow> s
      | Some i \<Rightarrow>
          (if mask_index i < length (index_map s)
           then s\<lparr>priority_mins := (priority_mins s)(mask_index i \<mapsto> priority)\<rparr>
           else s))"

definition set_overwritable :: "handler \<Rightarrow> int option \<Rightarrow> bool \<Rightarrow> handler" where
  "set_overwritable s index new_val =
     (case index of
        None \<Rightarrow> s
      | Some i \<Rightarrow>
          (if mask_index i < length (index_map s)
           then s\<lparr>overwritables := (overwritables s)(mask_index i \<mapsto> new_val)\<rparr>
           else s))"

text \<open>
  The \<open>try\<close> block of \<open>set_path\<close>: drop a \<open>#\<close> suffix of the last piece when only
  digits (or digits and underscores) follow the \<open>#\<close>. With no piece at all
  \<open>path_pieces[-1]\<close> raises and the \<open>except\<close> clause passes.
\<close>

definition strip_unique_suffix :: "bool \<Rightarrow> string list \<Rightarrow> string list" where
  "strip_unique_suffix can_be_digit_suffixed path_pieces =
     (if path_pieces = [] then path_pieces
      else
        (let basename_pieces = rsplit1 (CHR ''#'') (last path_pieces)
         in if strip_chars
                 (\<lambda>c. c \<in> set (if can_be_digit_suffixed then DIGIT_CHARS else DIGIT_US_CHARS))
                 (last basename_pieces) = []
            then butlast path_pieces @ [hd basename_pieces]
            else path_pieces))"

text \<open>
  \<open>set_path(index, new_path_no_ext, do_printout, ensure_unique_name, ensure_root_prefixed)\<close>.
  \<open>sanitize\<close> stands for \<open>str(sanitize_win32_path(_))\<close> of \<open>refinery.util\<close>, whose
  source is not at hand: it is a parameter. Printing (\<open>do_printout\<close>) changes no state
  and is left out. The result is the returned full path and the new state.
\<close>

definition set_path ::
  "(string \<Rightarrow> string) \<Rightarrow> handler \<Rightarrow> int option \<Rightarrow> string \<Rightarrow> bool \<Rightarrow> bool
     \<Rightarrow> error + (string option \<times> handler)" where
  "set_path sanitize s index new_path_no_ext ensure_unique_name ensure_root_prefixed =
     (case index of
        None \<Rightarrow> Inr (None, s)
      | Some i \<Rightarrow>
          (let idx = mask_index i;
               np0 = lower new_path_no_ext;
               np1 = (if ensure_root_prefixed \<and> \<not> startswith np0 (root_dir_prefix s)
                      then root_dir_prefix s @ np0 else np0)
           in case get_index_ref s (Some (int idx)) of
                None \<Rightarrow> Inr (None, s)
              | Some tag_ref \<Rightarrow>
                  (let np2 = (if np1 = [] \<or> last np1 = CHR 0x5C
                              then np1 @ ''protected_'' @ string_of_nat idx else np1);
                       ext0 = lower (class_1 tag_ref);
                       can_be_digit_suffixed = (ext0 \<notin> perm_suffixed_tag_classes s);
                       ext = ''.'' @ ext0;
                       np3 = lower (strip (sanitize np2));
                       unique_issue = (map_of (path_map s) (np3 @ ext) \<notin> {None, Some idx});
                       suffix_issue = (\<not> can_be_digit_suffixed \<and> np3 \<noteq> []
                                        \<and> last np3 \<in> set DIGIT_CHARS);
                       np4 = (if suffix_issue \<or> (ensure_unique_name \<and> unique_issue)
                              then get_unique_name (path_map s) (\<lambda>v. v = idx)
                                     (win_str (strip_unique_suffix can_be_digit_suffixed
                                                 (win_parts np3)))
                                     ((if can_be_digit_suffixed then [] else ''_'') @ ext)
                                   @ (if can_be_digit_suffixed then [] else ''_'')
                              else np3);
                       old_path = lower (path tag_ref) @ ext;
                       new_path = np4 @ ext
                   in if map_of (path_map s) new_path \<notin> {None, Some idx} then Inl KeyError
                      else Inr (Some new_path,
                             s\<lparr>path_map :=
                                  AList.update new_path idx (AList.delete old_path (path_map s)),
                               index_map := (index_map s)[idx := tag_ref\<lparr>path := np4\<rparr>]\<rparr>))))"

text \<open>\<open>set_path_by_priority(index, new_path_no_ext, priority, override, do_printout)\<close>\<close>

definition set_path_by_priority ::
  "(string \<Rightarrow> string) \<Rightarrow> handler \<Rightarrow> int option \<Rightarrow> string \<Rightarrow> priority option \<Rightarrow> bool
     \<Rightarrow> error + (priority \<times> handler)" where
  "set_path_by_priority sanitize s index new_path_no_ext priority override =
     (case get_index_ref s index of
        None \<Rightarrow> Inr (NegInf, s)
      | Some tag_ref \<Rightarrow>
          (let priority = (case priority of None \<Rightarrow> def_priority s | Some p \<Rightarrow> p)
           in case get_will_overwrite s index (Some priority) override of
                Inl e \<Rightarrow> Inl e
              | Inr False \<Rightarrow> Inr (get_priority s index NegInf, s)
              | Inr True \<Rightarrow>
                  (case set_path sanitize s index new_path_no_ext True True of
                     Inl e \<Rightarrow> Inl e
                   | Inr (_, s') \<Rightarrow> Inr (priority, set_priority s' index priority))))"


subsection \<open>The stages of \<open>set_path\<close>\<close>

text \<open>
  The values \<open>new_path_no_ext\<close> goes through in \<open>set_path\<close>, one definition for each,
  for the identity \<open>idx\<close> (already masked) of an entry of the index. After lines 215 to
  223: lowered, prefixed with the root directory, and given the name \<open>protected_idx\<close>
  when it is empty or ends in a backslash.
\<close>

definition prepared_path :: "handler \<Rightarrow> nat \<Rightarrow> string \<Rightarrow> bool \<Rightarrow> string" where
  "prepared_path s idx new_path_no_ext ensure_root_prefixed =
     (let np0 = lower new_path_no_ext;
          np1 = (if ensure_root_prefixed \<and> \<not> startswith np0 (root_dir_prefix s)
                 then root_dir_prefix s @ np0 else np0)
      in if np1 = [] \<or> last np1 = CHR 0x5C
         then np1 @ ''protected_'' @ string_of_nat idx else np1)"

text \<open>After line 228: sanitized, stripped and lowered.\<close>

definition normalized_path ::
  "(string \<Rightarrow> string) \<Rightarrow> handler \<Rightarrow> nat \<Rightarrow> string \<Rightarrow> bool \<Rightarrow> string" where
  "normalized_path sanitize s idx new_path_no_ext ensure_root_prefixed =
     lower (strip (sanitize (prepared_path s idx new_path_no_ext ensure_root_prefixed)))"

text \<open>
  The test of line 233: the class does not allow the digit the name ends in, or a unique
  name is asked for and another entry owns the normalized full path.
\<close>

definition needs_unique_name ::
  "(string \<Rightarrow> string) \<Rightarrow> handler \<Rightarrow> nat \<Rightarrow> string \<Rightarrow> bool \<Rightarrow> bool \<Rightarrow> bool" where
  "needs_unique_name sanitize s idx new_path_no_ext ensure_unique_name ensure_root_prefixed =
     (let ext0 = lower (class_1 (index_map s ! idx));
          can_be_digit_suffixed = (ext0 \<notin> perm_suffixed_tag_classes s);
          np3 = normalized_path sanitize s idx new_path_no_ext ensure_root_prefixed;
          unique_issue = (map_of (path_map s) (np3 @ ''.'' @ ext0) \<notin> {None, Some idx});
          suffix_issue = (\<not> can_be_digit_suffixed \<and> np3 \<noteq> [] \<and> last np3 \<in> set DIGIT_CHARS)
      in suffix_issue \<or> (ensure_unique_name \<and> unique_issue))"

text \<open>
  After line 251, the path that lines 262 to 264 store: the normalized candidate, or the
  name \<open>get_unique_name\<close> derives from it.
\<close>

definition committed_path ::
  "(string \<Rightarrow> string) \<Rightarrow> handler \<Rightarrow> nat \<Rightarrow> string \<Rightarrow> bool \<Rightarrow> bool \<Rightarrow> string" where
  "committed_path sanitize s idx new_path_no_ext ensure_unique_name ensure_root_prefixed =
     (let ext0 = lower (class_1 (index_map s ! idx));
          can_be_digit_suffixed = (ext0 \<notin> perm_suffixed_tag_classes s);
          np3 = normalized_path sanitize s idx new_path_no_ext ensure_root_prefixed
      in if needs_unique_name sanitize s idx new_path_no_ext ensure_unique_name
              ensure_root_prefixed
         then get_unique_name (path_map s) (\<lambda>v. v = idx)
                (win_str (strip_unique_suffix can_be_digit_suffixed (win_parts np3)))
                ((if can_be_digit_suffixed then [] else ''_'') @ ''.'' @ ext0)
              @ (if can_be_digit_suffixed then [] else ''_'')
         else np3)"

text \<open>
  The state \<open>set_path\<close> leaves when it stores the path \<open>np\<close> for \<open>idx\<close>: the old key
  popped, the new key owned by \<open>idx\<close>, the path of the entry replaced.
\<close>

definition commit :: "handler \<Rightarrow> nat \<Rightarrow> string \<Rightarrow> handler" where
  "commit s idx np =
     (let tag_ref = index_map s ! idx; ext = ''.'' @ lower (class_1 tag_ref)
      in s\<lparr>path_map := AList.update (np @ ext) idx
                         (AList.delete (lower (path tag_ref) @ ext) (path_map s)),
           index_map := (index_map s)[idx := tag_ref\<lparr>path := np\<rparr>]\<rparr>)"



subsection \<open>Sequences of calls\<close>

text \<open>
  The calls a client makes on a handler between construction and compaction. A call that
  raises does so before it changes anything, so the state after it is the state before.
\<close>

datatype call =
    SetPath "int option" string bool bool
  | SetPathByPriority "int option" string "priority option" bool
  | SetPriority "int option" priority
  | SetPriorityMin "int option" priority
  | SetRootDirPrefix string
  | SetOverwritable "int option" bool

fun exec_call :: "(string \<Rightarrow> string) \<Rightarrow> handler \<Rightarrow> call \<Rightarrow> error + handler" where
  "exec_call sanitize s (SetPath index p uniq pre) =
     (case set_path sanitize s index p uniq pre of Inl e \<Rightarrow> Inl e | Inr (_, s') \<Rightarrow> Inr s')"
| "exec_call sanitize s (SetPathByPriority index p priority override) =
     (case set_path_by_priority sanitize s index p priority override of
        Inl e \<Rightarrow> Inl e
      | Inr (_, s') \<Rightarrow> Inr s')"
| "exec_call sanitize s (SetPriority index priority) = Inr (set_priority s index priority)"
| "exec_call sanitize s (SetPriorityMin index priority) = Inr (set_priority_min s index priority)"
| "exec_call sanitize s (SetRootDirPrefix v) = Inr (set_root_dir_prefix s v)"
| "exec_call sanitize s (SetOverwritable index new_val) = Inr (set_overwritable s index new_val)"

fun run_calls :: "(string \<Rightarrow> string) \<Rightarrow> handler \<Rightarrow> call list \<Rightarrow> handler" where
  "run_calls sanitize s [] = s"
| "run_calls sanitize s (c # cs) =
     run_calls sanitize (case exec_call sanitize s c of Inl e \<Rightarrow> s | Inr s' \<Rightarrow> s') cs"

text \<open>The normalized full path of an entry, as \<open>__init__\<close> and \<open>shorten_paths\<close> key it.\<close>

definition full_path :: "tag_ref \<Rightarrow> string" where
  "full_path ref = lower (path ref @ ''.'' @ class_1 ref)"

text \<open>
  A run of proposals \<open>(index, path, priority, override)\<close> through
  \<open>set_path_by_priority\<close>, with the priorities of the proposals that were accepted
  for the tag \<open>t\<close>: those that get past \<open>get_will_overwrite\<close> and are committed.
\<close>

type_synonym proposal = "int option \<times> string \<times> priority option \<times> bool"

definition proposed_priority :: "handler \<Rightarrow> priority option \<Rightarrow> priority" where
  "proposed_priority s priority = (case priority of None \<Rightarrow> def_priority s | Some p \<Rightarrow> p)"

fun run_proposals :: "(string \<Rightarrow> string) \<Rightarrow> handler \<Rightarrow> proposal list \<Rightarrow> handler" where
  "run_proposals sanitize s [] = s"
| "run_proposals sanitize s ((index, p, priority, override) # ps) =
     run_proposals sanitize
       (case set_path_by_priority sanitize s index p priority override of
          Inl e \<Rightarrow> s
        | Inr (_, s') \<Rightarrow> s') ps"

fun accepted :: "(string \<Rightarrow> string) \<Rightarrow> handler \<Rightarrow> nat \<Rightarrow> proposal list \<Rightarrow> priority list" where
  "accepted sanitize s t [] = []"
| "accepted sanitize s t ((index, p, priority, override) # ps) =
     (case set_path_by_priority sanitize s index p priority override of
        Inl e \<Rightarrow> accepted sanitize s t ps
      | Inr (_, s') \<Rightarrow>
          (if get_index_ref s index \<noteq> None \<and> map_option mask_index index = Some t
              \<and> get_will_overwrite s index (Some (proposed_priority s priority)) override
                  = Inr True
           then [proposed_priority s priority] else [])
          @ accepted sanitize s' t ps)"

subsection \<open>Invariants of the handler state\<close>

text \<open>A string that \<open>str.lower\<close> leaves as it is.\<close>

definition all_lower :: "string \<Rightarrow> bool" where
  "all_lower s = (\<forall>c\<in>set s. lower_char c = c)"





text \<open>The path map sends the normalized full path of every entry to its identity.\<close>

definition path_map_consistent :: "handler \<Rightarrow> bool" where
  "path_map_consistent s =
     (\<forall>i<length (index_map s). map_of (path_map s) (full_path (index_map s ! i)) = Some i)"

subsection \<open>A small tag index\<close>

text \<open>Tag 0 is pinned at \<open>x\a\<close>, tag 1 is not pinned and sits at \<open>x\b\<close>.\<close>

definition example_index :: "tag_ref list" where
  "example_index =
     [\<lparr>path = ''x'' @ [CHR 0x5C] @ ''a'', class_1 = ''bitmap'', indexed = True\<rparr>,
      \<lparr>path = ''x'' @ [CHR 0x5C] @ ''b'', class_1 = ''bitmap'', indexed = False\<rparr>]"

definition example_handler :: handler where
  "example_handler = init example_index (Fin 0) Map.empty Map.empty {}"

text \<open>An index in which two entries carry the same path and class.\<close>

definition duplicate_index :: "tag_ref list" where
  "duplicate_index =
     [\<lparr>path = ''a'', class_1 = ''bitmap'', indexed = False\<rparr>,
      \<lparr>path = ''a'', class_1 = ''bitmap'', indexed = False\<rparr>]"

text \<open>
  Tag 1 is proposed \<open>x/b\<close> at priority 1, then \<open>x/c\<close> at priority 0.
\<close>

definition example_proposals :: "proposal list" where
  "example_proposals =
     [(Some 1, ''x/b'', Some (Fin 1), False), (Some 1, ''x/c'', Some (Fin 0), False)]"

section \<open>The dependency walker: \<open>heuristic_deprotect\<close>\<close>

text \<open>
  The keyword arguments the walker reads. \<open>seen\<close> is a set object shared by the whole
  call tree and lives in the state below; \<open>min_priority\<close> is the accumulator of the
  current call and is passed on its own.
\<close>

record kwargs =
  kw_priority :: "priority option"
  kw_use_minimum_priorities :: bool
  kw_use_minimum_equal_priorities :: bool
  kw_return_on_equal_min_priority :: bool
  kw_override :: bool
  kw_depth :: priority

text \<open>What a call without keyword arguments has: \<open>depth\<close> defaults to \<open>INF\<close>.\<close>

definition default_kwargs :: kwargs where
  "default_kwargs =
     \<lparr>kw_priority = None, kw_use_minimum_priorities = False,
      kw_use_minimum_equal_priorities = False, kw_return_on_equal_min_priority = False,
      kw_override = False, kw_depth = PosInf\<rparr>"

text \<open>\<open>kw["depth"] - 1\<close> on a float that may be infinite.\<close>

fun minus_one :: "priority \<Rightarrow> priority" where
  "minus_one (Fin d) = Fin (d - 1)"
| "minus_one PosInf = PosInf"
| "minus_one NegInf = NegInf"

text \<open>
  The state the walker and the naming policies share by reference: the path handler and
  the set \<open>seen\<close>.
\<close>

record walk_state =
  handler :: handler
  seen :: "nat set"

text \<open>
  The map: the class names of \<open>halo_map.tag_index.tag_index\<close> and
  \<open>halo_map.get_meta\<close>, which for a tag collection yields the identities that
  \<open>get_tag_id\<close> reads off its references (\<open>None\<close> for an empty reference).
\<close>

record halo_map =
  tag_classes :: "string list"
  get_meta :: "int \<Rightarrow> int option list option"

text \<open>
  A call of the walker returns a priority or raises, in a new state; \<open>None\<close> is a call
  that ran out of fuel. A naming policy gets the walker to call back, the accumulator of
  the calling walker, and returns the accumulator with the error it raised, if any.
\<close>

type_synonym walker =
  "walk_state \<Rightarrow> int option \<Rightarrow> string \<Rightarrow> string \<Rightarrow> string \<Rightarrow> kwargs
     \<Rightarrow> (walk_state \<times> (error + priority)) option"

type_synonym rename_func =
  "walker \<Rightarrow> walk_state \<Rightarrow> int \<Rightarrow> string \<Rightarrow> string \<Rightarrow> string \<Rightarrow> kwargs \<Rightarrow> priority
     \<Rightarrow> (walk_state \<times> priority \<times> error option) option"

text \<open>The first two branches of the walker after the identity is resolved.\<close>

datatype gate = Return priority | Proceed

definition walk_gate :: "walk_state \<Rightarrow> nat \<Rightarrow> kwargs \<Rightarrow> gate" where
  "walk_gate st tag_index_id kw =
     (let priority = kw_priority kw;
          curr_min_prio = get_priority_min (handler st) (Some (int tag_index_id)) PosInf
      in if tag_index_id \<in> seen st \<or> kw_depth kw < Fin 0 then Return curr_min_prio
         else if \<not> kw_use_minimum_priorities kw \<or> priority = None
                 \<or> curr_min_prio < the priority then Proceed
         else if curr_min_prio > the priority
                 \<or> (kw_use_minimum_equal_priorities kw \<and> kw_return_on_equal_min_priority kw)
         then Return curr_min_prio
         else Proceed)"

text \<open>
  The end of a walker call: \<open>seen.remove\<close> raises \<open>KeyError\<close> for an absent element.
\<close>

definition walk_finish :: "walk_state \<Rightarrow> nat \<Rightarrow> priority \<Rightarrow> walk_state \<times> (error + priority)" where
  "walk_finish st tag_index_id min_priority =
     (if tag_index_id \<notin> seen st then (st, Inl KeyError)
      else (st\<lparr>seen := seen st - {tag_index_id},
               handler := set_priority_min (handler st) (Some (int tag_index_id)) min_priority\<rparr>,
            Inr min_priority))"

text \<open>
  Modelled from the spec: the class \<open>MinPriority\<close> of
  \<open>refinery.heuristic_deprotection.util\<close> is imported, its source is not at hand. The
  spec has the walker fold the priorities it gets back into a minimum: a new accumulator
  holds \<open>INF\<close>, and an assignment to its \<open>val\<close> keeps the minimum of the old and
  the assigned value.
\<close>

definition MinPriority :: priority where
  "MinPriority = PosInf"

definition assign_val :: "priority \<Rightarrow> priority \<Rightarrow> priority" where
  "assign_val min_priority new_val = min new_val min_priority"

declare MinPriority_def [simp] and assign_val_def [simp]

text \<open>
  The traversal, from \<open>kw.update(depth=...)\<close> to the end of the walker: \<open>walk\<close> is
  the walker that the policy calls back. \<open>sanitize\<close>, the table
  \<open>recursive_rename_functions\<close> and the map are parameters. The try block around the
  call of the policy catches what it raises.
\<close>

definition walk_traverse ::
  "walker \<Rightarrow> (string \<Rightarrow> string) \<Rightarrow> (string \<Rightarrow> rename_func option) \<Rightarrow> halo_map
     \<Rightarrow> walk_state \<Rightarrow> int \<Rightarrow> string \<Rightarrow> string \<Rightarrow> string \<Rightarrow> kwargs
     \<Rightarrow> (walk_state \<times> (error + priority)) option" where
  "walk_traverse walk sanitize recursive_rename_functions hm st tid root_dir sub_dir name kw =
     (let tag_index_id = mask_index tid;
          kw' = kw\<lparr>kw_depth := minus_one (kw_depth kw)\<rparr>;
          st1 = st\<lparr>seen := insert tag_index_id (seen st)\<rparr>
      in case recursive_rename_functions (tag_classes hm ! tag_index_id) of
           Some rename_func \<Rightarrow>
             (case rename_func walk st1 tid root_dir sub_dir name kw' MinPriority of
                None \<Rightarrow> None
              | Some (st2, min_priority, _) \<Rightarrow>
                  Some (walk_finish st2 tag_index_id min_priority))
         | None \<Rightarrow>
             (case set_path_by_priority sanitize (handler st1) (Some tid)
                     (root_dir @ sub_dir @ name) (kw_priority kw) (kw_override kw) of
                Inl e \<Rightarrow> Some (st1, Inl e)
              | Inr (r, h) \<Rightarrow>
                  Some (walk_finish (st1\<lparr>handler := h\<rparr>) tag_index_id
                          (assign_val MinPriority r))))"

text \<open>
  \<open>heuristic_deprotect(tag_id, halo_map, tag_path_handler, root_dir, sub_dir, name, **kw)\<close>
  with fuel for the depth of the calls: a call without fuel is \<open>None\<close>.
\<close>

primrec heuristic_deprotect ::
  "nat \<Rightarrow> (string \<Rightarrow> string) \<Rightarrow> (string \<Rightarrow> rename_func option) \<Rightarrow> halo_map \<Rightarrow> walker" where
  "heuristic_deprotect 0 sanitize recursive_rename_functions hm =
     (\<lambda>st tag_id root_dir sub_dir name kw. None)"
| "heuristic_deprotect (Suc fuel) sanitize recursive_rename_functions hm =
     (\<lambda>st tag_id root_dir sub_dir name kw.
        case tag_id of
          None \<Rightarrow> Some (st, Inr PosInf)
        | Some tid \<Rightarrow>
            (if \<not> mask_index tid < length (tag_classes hm) then Some (st, Inr PosInf)
             else
               (case walk_gate st (mask_index tid) kw of
                  Return curr_min_prio \<Rightarrow> Some (st, Inr curr_min_prio)
                | Proceed \<Rightarrow>
                    walk_traverse (heuristic_deprotect fuel sanitize recursive_rename_functions hm)
                      sanitize recursive_rename_functions hm st tid root_dir sub_dir name kw)))"

text \<open>\<open>'%s' % tag_id\<close> for a Python integer.\<close>

definition string_of_int :: "int \<Rightarrow> string" where
  "string_of_int i = (if i < 0 then ''-'' @ string_of_nat (nat (- i)) else string_of_nat (nat i))"

text \<open>
  The loop of \<open>rename_tagc\<close> over the references of the collection. A call of the
  walker that raises ends the policy; its state stays.
\<close>

fun tagc_references ::
  "walker \<Rightarrow> walk_state \<Rightarrow> string \<Rightarrow> string \<Rightarrow> kwargs \<Rightarrow> priority \<Rightarrow> int option list
     \<Rightarrow> (walk_state \<times> priority \<times> error option) option" where
  "tagc_references walk st root_dir sub_dir kw min_prio [] = Some (st, min_prio, None)"
| "tagc_references walk st root_dir sub_dir kw min_prio (b # bs) =
     (case walk st b root_dir sub_dir [] kw of
        None \<Rightarrow> None
      | Some (st', Inl e) \<Rightarrow> Some (st', min_prio, Some e)
      | Some (st', Inr r) \<Rightarrow>
          tagc_references walk st' root_dir sub_dir kw (assign_val min_prio r) bs)"

text \<open>
  \<open>rename_tagc\<close>, the naming policy of tag collections. \<open>LOW_PRIORITY\<close> of
  \<open>refinery.heuristic_deprotection.constants\<close> is a parameter.
\<close>

definition rename_tagc :: "(string \<Rightarrow> string) \<Rightarrow> priority \<Rightarrow> halo_map \<Rightarrow> rename_func" where
  "rename_tagc sanitize LOW_PRIORITY hm walk st tag_id root_dir sub_dir name kw min_prio =
     (let name = (if name = [] then ''protected_'' @ string_of_int tag_id else name)
      in case get_meta hm tag_id of
           None \<Rightarrow> Some (st, min_prio, None)
         | Some tag_references \<Rightarrow>
             (let kw = kw\<lparr>kw_priority := Some LOW_PRIORITY\<rparr>
              in case set_path_by_priority sanitize (handler st) (Some tag_id)
                        (root_dir @ sub_dir @ name) (kw_priority kw) (kw_override kw) of
                   Inl e \<Rightarrow> Some (st, min_prio, Some e)
                 | Inr (r, h) \<Rightarrow>
                     (let st = st\<lparr>handler := h\<rparr>;
                          min_prio = assign_val min_prio r
                      in case get_sub_dir (handler st) (Some tag_id) root_dir of
                           Inl e \<Rightarrow> Some (st, min_prio, Some e)
                         | Inr sub_dir \<Rightarrow>
                             (let name = get_basename (handler st) (Some tag_id)
                              in tagc_references walk st root_dir
                                   (sub_dir @ name @ [CHR 0x5C]) kw min_prio tag_references))))"

text \<open>The part of the table \<open>recursive_rename_functions\<close> that is modelled.\<close>

definition tagc_table ::
  "(string \<Rightarrow> string) \<Rightarrow> priority \<Rightarrow> halo_map \<Rightarrow> string \<Rightarrow> rename_func option" where
  "tagc_table sanitize LOW_PRIORITY hm cls =
     (if cls = ''tag_collection'' then Some (rename_tagc sanitize LOW_PRIORITY hm) else None)"

subsection \<open>Two tag collections that reference each other\<close>

definition cycle_index :: "tag_ref list" where
  "cycle_index =
     [\<lparr>path = [], class_1 = ''tag_collection'', indexed = False\<rparr>,
      \<lparr>path = [], class_1 = ''tag_collection'', indexed = False\<rparr>]"

definition cycle_map :: halo_map where
  "cycle_map =
     \<lparr>tag_classes = [''tag_collection'', ''tag_collection''],
      get_meta = (\<lambda>tag_id. if mask_index tag_id = 0 then Some [Some 1]
                            else if mask_index tag_id = 1 then Some [Some 0] else None)\<rparr>"

definition cycle_state :: walk_state where
  "cycle_state =
     \<lparr>handler = init cycle_index (Fin 0) Map.empty Map.empty {}, seen = {}\<rparr>"

text \<open>A walker that returns whatever another one returns: more fuel changes no result.\<close>

definition walker_le :: "walker \<Rightarrow> walker \<Rightarrow> bool" where
  "walker_le w w' =
     (\<forall>st tag_id root_dir sub_dir name kw r.
        w st tag_id root_dir sub_dir name kw = Some r
        \<longrightarrow> w' st tag_id root_dir sub_dir name kw = Some r)"


subsection \<open>Walks over the small tag index\<close>

definition example_map :: halo_map where
  "example_map = \<lparr>tag_classes = [''bitmap'', ''bitmap''], get_meta = (\<lambda>tag_id. None)\<rparr>"

definition example_state :: walk_state where
  "example_state = \<lparr>handler = example_handler, seen = {}\<rparr>"

text \<open>
  Minimum priorities on, \<open>return_on_equal_min_priority\<close> on,
  \<open>use_minimum_equal_priorities\<close> left out, and a proposal at priority 0, the priority
  floor of tag 1.
\<close>

definition equal_floor_kwargs :: kwargs where
  "equal_floor_kwargs =
     \<lparr>kw_priority = Some (Fin 0), kw_use_minimum_priorities = True,
      kw_use_minimum_equal_priorities = False, kw_return_on_equal_min_priority = True,
      kw_override = True, kw_depth = PosInf\<rparr>"




section \<open>The path compactor: \<open>shorten_paths\<close>\<close>

subsection \<open>Names\<close>

text \<open>\<open>s.split(c)\<close> for a separator of one character: empty pieces stay.\<close>

fun split_char :: "char \<Rightarrow> string \<Rightarrow> string list" where
  "split_char c [] = [[]]"
| "split_char c (x # xs) =
     (if x = c then [] # split_char c xs
      else (case split_char c xs of p # ps \<Rightarrow> (x # p) # ps | [] \<Rightarrow> [[x]]))"

fun join_char :: "char \<Rightarrow> string list \<Rightarrow> string" where
  "join_char c [] = []"
| "join_char c [p] = p"
| "join_char c (p # ps) = p @ [c] @ join_char c ps"

definition replace_char :: "char \<Rightarrow> char \<Rightarrow> string \<Rightarrow> string" where
  "replace_char a b s = map (\<lambda>c. if c = a then b else c) s"

text \<open>The number of leading positions at which two lists agree.\<close>

fun common_prefix_len :: "'a list \<Rightarrow> 'a list \<Rightarrow> nat" where
  "common_prefix_len (x # xs) (y # ys) = (if x = y then Suc (common_prefix_len xs ys) else 0)"
| "common_prefix_len _ _ = 0"

definition shorten_name_to_parent :: "string \<Rightarrow> string \<Rightarrow> string" where
  "shorten_name_to_parent parent name =
     (let join = (if CHR ''_'' \<in> set name then CHR ''_'' else CHR '' '');
          parent_pieces = split_char (CHR '' '') (replace_char (CHR ''_'') (CHR '' '') parent);
          name_pieces = split_char (CHR '' '') (replace_char (CHR ''_'') (CHR '' '') name);
          start = common_prefix_len parent_pieces name_pieces;
          end = length name_pieces - common_prefix_len (rev parent_pieces) (rev name_pieces)
      in join_char join (take (end - start) (drop start name_pieces)))"

text \<open>\<open>os.path.splitext\<close> on a name without separators: leading dots are no extension.\<close>

definition splitext :: "string \<Rightarrow> string \<times> string" where
  "splitext p =
     (let base = rev (tl (dropWhile (\<lambda>c. c \<noteq> CHR ''.'') (rev p)))
      in if CHR ''.'' \<in> set p \<and> (\<exists>c\<in>set base. c \<noteq> CHR ''.'')
         then (base, drop (length base) p) else (p, []))"

text \<open>\<open>PurePath.suffix\<close> of a name: from the last dot, unless it is first or last.\<close>

definition name_suffix :: "string \<Rightarrow> string" where
  "name_suffix name =
     (let base = rev (tl (dropWhile (\<lambda>c. c \<noteq> CHR ''.'') (rev name)))
      in if CHR ''.'' \<in> set name \<and> base \<noteq> [] \<and> Suc (length base) < length name
         then drop (length base) name else [])"

text \<open>
  \<open>str(p.with_suffix(""))\<close> for the path with the given parts: \<open>ValueError\<close> for a
  path without a name.
\<close>

definition str_without_suffix :: "string list \<Rightarrow> error + string" where
  "str_without_suffix pieces =
     (if pieces = [] then Inl ValueError
      else Inr (join_sep (butlast pieces
                  @ [take (length (last pieces) - length (name_suffix (last pieces)))
                       (last pieces)])))"

subsection \<open>The tries\<close>

text \<open>
  The two tries of \<open>shorten_paths\<close> are nested dictionaries that the loops change in
  place while the stack refers to them. A dictionary is an address in a heap; a value of
  a dictionary is a dictionary, an entry of the tag index (the object itself, here its
  position in the index) or \<open>None\<close>. Address 0 is \<open>paths\<close>, address 1 is
  \<open>new_paths\<close>.
\<close>

datatype tval = VDict nat | VRef nat | VNone

type_synonym pydict = "(string \<times> tval) list"

type_synonym heap = "pydict list"

datatype printed = TooNested int | OverLimit string

datatype 'a phase1 = Raised error | Nested | Built 'a

text \<open>\<open>for dname in tag_path_pieces[: -1]: curr_dir = curr_dir.setdefault(dname, {})\<close>\<close>

fun setdefault_dirs :: "heap \<Rightarrow> tval \<Rightarrow> string list \<Rightarrow> error + (heap \<times> tval)" where
  "setdefault_dirs h curr_dir [] = Inr (h, curr_dir)"
| "setdefault_dirs h curr_dir (dname # dnames) =
     (case curr_dir of
        VDict a \<Rightarrow>
          (case map_of (h ! a) dname of
             Some v \<Rightarrow> setdefault_dirs h v dnames
           | None \<Rightarrow>
               setdefault_dirs ((h[a := h ! a @ [(dname, VDict (length h))]]) @ [[]])
                 (VDict (length h)) dnames)
      | _ \<Rightarrow> Inl AttributeError)"

text \<open>The bound on the nesting depth: four characters for every directory.\<close>

definition too_nested :: "int \<Rightarrow> string list \<Rightarrow> bool" where
  "too_nested max_len tag_path_pieces = ((int (length tag_path_pieces) - 1) * 4 > max_len)"

text \<open>One turn of the first loop, for the item \<open>(tag_path, index)\<close> of the path map.\<close>

definition trie_add ::
  "(string \<Rightarrow> string) \<Rightarrow> handler \<Rightarrow> int \<Rightarrow> heap \<Rightarrow> string \<times> nat \<Rightarrow> heap phase1" where
  "trie_add sanitize s max_len h item =
     (let tag_path_pieces = win_parts (sanitize (lower (fst item)))
      in case str_without_suffix tag_path_pieces of
           Inl e \<Rightarrow> Raised e
         | Inr no_suffix \<Rightarrow>
             (let index = (if int (length no_suffix) < max_len then None else Some (snd item))
              in if too_nested max_len tag_path_pieces then Nested
                 else
                   (case setdefault_dirs h (VDict 0) (butlast tag_path_pieces) of
                      Inl e \<Rightarrow> Raised e
                    | Inr (h', curr_dir) \<Rightarrow>
                        (if index \<noteq> None \<and> \<not> the index < length (index_map s)
                         then Raised IndexError
                         else
                           (case curr_dir of
                              VDict a \<Rightarrow>
                                Built (h'[a := AList.update (last tag_path_pieces)
                                               (case index of None \<Rightarrow> VNone | Some i \<Rightarrow> VRef i)
                                               (h' ! a)])
                            | _ \<Rightarrow> Raised TypeError)))))"

fun build_trie ::
  "(string \<Rightarrow> string) \<Rightarrow> handler \<Rightarrow> int \<Rightarrow> (string \<times> nat) list \<Rightarrow> heap \<Rightarrow> heap phase1" where
  "build_trie sanitize s max_len [] h = Built h"
| "build_trie sanitize s max_len (item # items) h =
     (case trie_add sanitize s max_len h item of
        Built h' \<Rightarrow> build_trie sanitize s max_len items h'
      | Raised e \<Rightarrow> Raised e
      | Nested \<Rightarrow> Nested)"

subsection \<open>Shortening the names\<close>

text \<open>
  The variables of the second loop. A frame of the stack holds \<open>parent\<close>,
  \<open>curr_paths\<close>, \<open>curr_new_paths\<close> and \<open>reparent\<close>.
\<close>

type_synonym reparent_dict = "(string \<times> tval list) list"

record shorten_state =
  sh_heap :: heap
  sh_stack :: "(string \<times> nat \<times> tval \<times> reparent_dict) list"
  sh_parent :: string
  sh_curr_paths :: nat
  sh_curr_new_paths :: tval
  sh_reparent :: reparent_dict

text \<open>\<open>curr_paths.pop(name)\<close>\<close>

definition pop_name :: "heap \<Rightarrow> nat \<Rightarrow> string \<Rightarrow> heap" where
  "pop_name h a name = h[a := AList.delete name (h ! a)]"

text \<open>
  The \<open>for\<close> loop over the sorted names of \<open>curr_paths\<close>; the result tells whether
  it ended in \<open>break\<close>. In \<open>get_unique_name\<close> an entry of value \<open>None\<close> counts
  as unused. A \<open>curr_new_paths\<close> that is no dictionary has no \<open>get\<close> and takes no
  item.
\<close>

fun shorten_for :: "shorten_state \<Rightarrow> string list \<Rightarrow> error + (bool \<times> shorten_state)" where
  "shorten_for st [] = Inr (False, st)"
| "shorten_for st (name # names) =
     (case map_of (sh_heap st ! sh_curr_paths st) name of
        None \<Rightarrow> Inl KeyError
      | Some (VDict a) \<Rightarrow>
          (if sh_heap st ! a \<noteq> [] then
             (case sh_curr_new_paths st of
                VDict n \<Rightarrow>
                  (let frame = (sh_parent st, sh_curr_paths st, sh_curr_new_paths st,
                                sh_reparent st);
                       new_name = get_unique_name (sh_heap st ! n) (\<lambda>v. v = VNone)
                                    (shorten_name_to_parent (sh_parent st) name) [];
                       st1 = st\<lparr>sh_stack := frame # sh_stack st\<rparr>;
                       st2 = (if new_name \<noteq> [] then
                                (case map_of (sh_heap st1 ! n) new_name of
                                   None \<Rightarrow>
                                     st1\<lparr>sh_parent := new_name,
                                         sh_heap := (sh_heap st1)
                                            [n := sh_heap st1 ! n
                                                    @ [(new_name, VDict (length (sh_heap st1)))]]
                                            @ [[]],
                                         sh_curr_new_paths := VDict (length (sh_heap st1))\<rparr>
                                 | Some v \<Rightarrow>
                                     st1\<lparr>sh_parent := new_name, sh_curr_new_paths := v\<rparr>)
                              else st1)
                   in Inr (True, st2\<lparr>sh_curr_paths := a, sh_reparent := []\<rparr>))
              | _ \<Rightarrow> Inl AttributeError)
           else shorten_for (st\<lparr>sh_heap := pop_name (sh_heap st) (sh_curr_paths st) name\<rparr>)
                  names)
      | Some val \<Rightarrow>
          (let base = fst (splitext name);
               ext = snd (splitext name);
               new_base = (if val \<noteq> VNone then shorten_name_to_parent (sh_parent st) base
                           else base);
               st1 = st\<lparr>sh_heap := pop_name (sh_heap st) (sh_curr_paths st) name\<rparr>
           in if new_base \<noteq> [] then
                (case sh_curr_new_paths st1 of
                   VDict n \<Rightarrow>
                     shorten_for
                       (st1\<lparr>sh_heap := (sh_heap st1)
                               [n := AList.update (new_base @ ext) val (sh_heap st1 ! n)]\<rparr>)
                       names
                 | _ \<Rightarrow> Inl TypeError)
              else
                shorten_for
                  (st1\<lparr>sh_reparent :=
                         AList.update (sh_parent st1 @ ext)
                           ((case map_of (sh_reparent st1) (sh_parent st1 @ ext) of
                               None \<Rightarrow> [] | Some items \<Rightarrow> items) @ [val])
                           (sh_reparent st1)\<rparr>)
                  names))"

text \<open>
  The second \<open>while True\<close> loop. The method \<open>self.get_unique_name\<close> that the
  re-parenting calls does not exist on the class (\<open>get_unique_name\<close> is a function of
  the module), so the first item to re-parent raises \<open>AttributeError\<close>.
\<close>

partial_function (option) shorten_loop :: "shorten_state \<Rightarrow> (error + shorten_state) option" where
  "shorten_loop st =
     (case shorten_for st (sort (map fst (sh_heap st ! sh_curr_paths st))) of
        Inl e \<Rightarrow> Some (Inl e)
      | Inr (_, st') \<Rightarrow>
          (if sh_heap st' ! sh_curr_paths st' \<noteq> [] then shorten_loop st'
           else
             (case sh_stack st' of
                [] \<Rightarrow> Some (Inr st')
              | (parent, curr_paths, curr_new_paths, reparent) # stack \<Rightarrow>
                  (if sh_reparent st' \<noteq> [] then Some (Inl AttributeError)
                   else shorten_loop
                          (st'\<lparr>sh_stack := stack, sh_parent := parent,
                              sh_curr_paths := curr_paths, sh_curr_new_paths := curr_new_paths,
                              sh_reparent := reparent\<rparr>)))))"

declare shorten_loop.simps [code]

subsection \<open>Applying the renames\<close>

text \<open>
  The variables of the third loop, and \<open>ap_renamed\<close>: the entries whose \<open>path\<close> the
  loop has assigned. What it assigns is a \<open>PureWindowsPath\<close> object, built from the
  directory pieces alone, not a string.
\<close>

record apply_state =
  ap_heap :: heap
  ap_stack :: "(string list \<times> nat) list"
  ap_path_pieces :: "string list"
  ap_curr_paths :: nat
  ap_renamed :: "nat list"

text \<open>
  The \<open>for\<close> loop of the third phase. \<open>with_suffix\<close> raises \<open>ValueError\<close> for the
  path without pieces, and with \<open>do_printout\<close> the format arguments take \<open>len\<close> of
  the new path object, a \<open>TypeError\<close>.
\<close>

fun apply_for ::
  "handler \<Rightarrow> bool \<Rightarrow> apply_state \<Rightarrow> string list \<Rightarrow> error + apply_state" where
  "apply_for s do_printout st [] = Inr st"
| "apply_for s do_printout st (name # names) =
     (case map_of (ap_heap st ! ap_curr_paths st) name of
        None \<Rightarrow> Inl KeyError
      | Some val \<Rightarrow>
          (let st1 = st\<lparr>ap_heap := pop_name (ap_heap st) (ap_curr_paths st) name\<rparr>
           in case val of
                VDict a \<Rightarrow>
                  (if ap_heap st1 ! a \<noteq> []
                   then Inr (st1\<lparr>ap_stack := (ap_path_pieces st1, ap_curr_paths st1) # ap_stack st1,
                                 ap_curr_paths := a,
                                 ap_path_pieces := ap_path_pieces st1 @ [name]\<rparr>)
                   else Inr st1)
              | VNone \<Rightarrow> apply_for s do_printout st1 names
              | VRef i \<Rightarrow>
                  (if indexed (index_map s ! i) then apply_for s do_printout st1 names
                   else if concat (map win_parts (ap_path_pieces st1)) = [] then Inl ValueError
                   else if do_printout then Inl TypeError
                   else apply_for s do_printout (st1\<lparr>ap_renamed := ap_renamed st1 @ [i]\<rparr>)
                          names)))"

partial_function (option) apply_loop ::
  "handler \<Rightarrow> bool \<Rightarrow> apply_state \<Rightarrow> (error + apply_state) option" where
  "apply_loop s do_printout st =
     (case apply_for s do_printout st (sort (map fst (ap_heap st ! ap_curr_paths st))) of
        Inl e \<Rightarrow> Some (Inl e)
      | Inr st' \<Rightarrow>
          (if ap_heap st' ! ap_curr_paths st' = [] then
             (case ap_stack st' of
                [] \<Rightarrow> Some (Inr st')
              | (path_pieces, curr_paths) # stack \<Rightarrow>
                  apply_loop s do_printout
                    (st'\<lparr>ap_stack := stack, ap_path_pieces := path_pieces,
                        ap_curr_paths := curr_paths\<rparr>))
           else apply_loop s do_printout st'))"

declare apply_loop.simps [code]

subsection \<open>Remaking the path map\<close>

fun remake_path_map :: "tag_ref list \<Rightarrow> nat \<Rightarrow> (string \<times> nat) list \<Rightarrow> (string \<times> nat) list" where
  "remake_path_map [] i pm = pm"
| "remake_path_map (ref # refs) i pm =
     remake_path_map refs (Suc i) (AList.update (lower (path ref @ ''.'' @ class_1 ref)) i pm)"

text \<open>The warnings of the last loop, one for every path over the limit.\<close>

definition over_limit_warnings :: "int \<Rightarrow> tag_ref list \<Rightarrow> printed list" where
  "over_limit_warnings max_len refs =
     map (\<lambda>ref. OverLimit (path ref)) (filter (\<lambda>ref. int (length (path ref)) > max_len) refs)"

text \<open>
  \<open>shorten_paths(max_len, do_printout, print_errors)\<close>: what it returns is the new
  state and what it printed. An entry that the third loop renamed carries a path object,
  and the last loop raises \<open>TypeError\<close> on it, at \<open>len\<close> or at \<open>+\<close>.
\<close>

definition shorten_paths ::
  "(string \<Rightarrow> string) \<Rightarrow> handler \<Rightarrow> int \<Rightarrow> bool \<Rightarrow> bool
     \<Rightarrow> (error + (handler \<times> printed list)) option" where
  "shorten_paths sanitize s max_len do_printout print_errors =
     (case build_trie sanitize s max_len (path_map s) [[], []] of
        Raised e \<Rightarrow> Some (Inl e)
      | Nested \<Rightarrow>
          (if \<not> print_errors then Some (Inl PathTooNested)
           else Some (Inr (s, [TooNested max_len])))
      | Built h \<Rightarrow>
          (case shorten_loop
                  \<lparr>sh_heap = h, sh_stack = [], sh_parent = [], sh_curr_paths = 0,
                   sh_curr_new_paths = VDict 1, sh_reparent = []\<rparr> of
             None \<Rightarrow> None
           | Some (Inl e) \<Rightarrow> Some (Inl e)
           | Some (Inr st) \<Rightarrow>
               (case apply_loop s do_printout
                       \<lparr>ap_heap = sh_heap st, ap_stack = [], ap_path_pieces = [],
                        ap_curr_paths = 1, ap_renamed = []\<rparr> of
                  None \<Rightarrow> None
                | Some (Inl e) \<Rightarrow> Some (Inl e)
                | Some (Inr st') \<Rightarrow>
                    (if ap_renamed st' \<noteq> [] then Some (Inl TypeError)
                     else Some (Inr (s\<lparr>path_map := remake_path_map (index_map s) 0 []\<rparr>,
                                     if do_printout
                                     then over_limit_warnings max_len (index_map s)
                                     else []))))))"

subsection \<open>A pinned tag with a long path\<close>

definition pinned_long_handler :: handler where
  "pinned_long_handler =
     init [\<lparr>path = ''x'' @ [CHR 0x5C] @ ''abcdefgh'', class_1 = ''bitmap'', indexed = True\<rparr>]
       (Fin 0) Map.empty Map.empty {}"

section \<open>Properties of the path authority\<close>


lemma get_unique_name_loop_unused:
  "\<not> key_used collection free (get_unique_name_loop collection free name ext final_name i @ ext)"
  by (induction collection free name ext final_name i rule: get_unique_name_loop.induct)
     (subst get_unique_name_loop.simps, simp)

lemma get_unique_name_unused:
  "\<not> key_used collection free (get_unique_name collection free name ext @ ext)"
  by (simp add: get_unique_name_def get_unique_name_loop_unused)

lemma key_used_path_map:
  "key_used m (\<lambda>v. v = idx) k = (map_of m k \<notin> {None, Some idx})"
  by (auto simp: key_used_def split: option.splits)

lemma set_path_unique_never_raises:
  "\<exists>r s'. set_path sanitize s index cand True prefixed = Inr (r, s')"
proof (cases index)
  case None
  then show ?thesis by (simp add: set_path_def)
next
  case (Some i)
  show ?thesis
  proof (cases "get_index_ref s (Some (int (mask_index i)))")
    case None
    then show ?thesis using Some by (simp add: set_path_def Let_def)
  next
    case (Some tag_ref)
    have u: "\<And>name ext. map_of (path_map s)
        (get_unique_name (path_map s) (\<lambda>v. v = mask_index i) name ext @ ext) \<in> {None, Some (mask_index i)}"
      using get_unique_name_unused [of "path_map s" "\<lambda>v. v = mask_index i"]
      by (simp only: key_used_path_map) blast
    show ?thesis
      using Some \<open>index = Some i\<close> u [of _ "''_'' @ ''.'' @ lower (class_1 tag_ref)"]
        u [of _ "''.'' @ lower (class_1 tag_ref)"]
      by (auto simp: set_path_def Let_def)
  qed
qed

lemma get_will_overwrite_valid:
  assumes "get_index_ref s index = Some tag_ref"
  shows "get_will_overwrite s index (Some p) override =
     Inr (\<not> (\<not> get_overwritable s index \<or> get_priority s index NegInf > p
            \<or> ((get_priority s index NegInf = p \<or> indexed tag_ref) \<and> \<not> override)))"
  using assms by (auto simp: get_will_overwrite_def get_index_ref_def split: option.splits)

lemma set_priority_get:
  "get_index_ref s index = Some tag_ref \<Longrightarrow> index_map s' = index_map s
   \<Longrightarrow> get_priority (set_priority s' index p) index d = p"
  by (auto simp: set_priority_def get_priority_def get_index_ref_def split: option.splits if_splits)





lemma lower_fix_iff: "lower s = s \<longleftrightarrow> all_lower s"
  by (induction s) (auto simp: lower_def all_lower_def)

lemma lower_char_idem: "lower_char (lower_char c) = lower_char c"
  by (auto simp: lower_char_def split: option.splits if_splits)

lemma all_lower_lower: "all_lower (lower s)"
  by (simp add: all_lower_def lower_def lower_char_idem)

lemma all_lower_Nil: "all_lower []"
  by (simp add: all_lower_def)

lemma all_lower_append: "all_lower (a @ b) \<longleftrightarrow> all_lower a \<and> all_lower b"
  by (auto simp: all_lower_def)

lemma all_lower_subset: "set a \<subseteq> set b \<Longrightarrow> all_lower b \<Longrightarrow> all_lower a"
  by (auto simp: all_lower_def)

lemma all_lower_literals:
  "all_lower DIGIT_CHARS" "all_lower unique_sep" "all_lower ''_''" "all_lower ''.''"
  "all_lower [CHR 0x5C]"
  by (simp_all add: all_lower_def DIGIT_CHARS_def unique_sep_def lower_char_def)

lemma digit_char_mem: "d < 10 \<Longrightarrow> digit_char d \<in> set DIGIT_CHARS"
  unfolding digit_char_def by (rule nth_mem) (simp add: DIGIT_CHARS_def)

lemma string_of_nat_digits: "set (string_of_nat n) \<subseteq> set DIGIT_CHARS"
proof (induction n rule: string_of_nat.induct)
  case (1 n)
  show ?case
  proof (cases "n < 10")
    case True
    then show ?thesis by (simp add: string_of_nat.simps [of n] digit_char_mem)
  next
    case False
    then show ?thesis
      using "1.IH" by (simp add: string_of_nat.simps [of n] digit_char_mem)
  qed
qed

lemma all_lower_string_of_nat: "all_lower (string_of_nat n)"
  using string_of_nat_digits all_lower_literals(1) by (rule all_lower_subset)

lemma get_unique_name_loop_lower:
  "all_lower name \<Longrightarrow> all_lower final_name
   \<Longrightarrow> all_lower (get_unique_name_loop collection free name ext final_name i)"
proof (induction collection free name ext final_name i rule: get_unique_name_loop.induct)
  case (1 collection free name ext final_name i)
  show ?case
  proof (cases "key_used collection free (final_name @ ext)")
    case True
    have "all_lower (name @ unique_sep @ string_of_nat i)"
      using "1.prems"(1) by (simp add: all_lower_append all_lower_literals all_lower_string_of_nat)
    then show ?thesis
      using True "1.IH" "1.prems"(1) by (subst get_unique_name_loop.simps) simp
  next
    case False
    then show ?thesis
      using "1.prems"(2) by (subst get_unique_name_loop.simps) simp
  qed
qed

lemma split_sep_nonempty: "split_sep s \<noteq> []"
  by (induction s) (auto split: list.splits)

lemma split_sep_lower: "all_lower s \<Longrightarrow> p \<in> set (split_sep s) \<Longrightarrow> all_lower p"
proof (induction s arbitrary: p)
  case Nil
  then show ?case by (simp add: all_lower_def)
next
  case (Cons c cs)
  from Cons.prems(1) have c: "lower_char c = c" and cs: "all_lower cs"
    by (simp_all add: all_lower_def)
  obtain a list where sp: "split_sep cs = a # list"
    using split_sep_nonempty [of cs] by (cases "split_sep cs") auto
  have a: "all_lower a" and l: "\<And>q. q \<in> set list \<Longrightarrow> all_lower q"
    using Cons.IH [OF cs] sp by simp_all
  have "p = [] \<or> p = c # a \<or> p = a \<or> p \<in> set list"
    using Cons.prems(2) sp by (auto split: if_splits)
  then show ?case
    using a l c by (auto simp: all_lower_def)
qed

lemma win_parts_lower: "all_lower s \<Longrightarrow> p \<in> set (win_parts s) \<Longrightarrow> all_lower p"
  by (auto simp: win_parts_def dest: split_sep_lower)

lemma join_sep_lower: "(\<And>p. p \<in> set ps \<Longrightarrow> all_lower p) \<Longrightarrow> all_lower (join_sep ps)"
proof (induction ps rule: join_sep.induct)
  case 1
  then show ?case by (simp add: all_lower_def)
next
  case (2 p)
  then show ?case by simp
next
  case (3 p v va)
  have "all_lower (join_sep (v # va))"
    using 3 by simp
  moreover have "all_lower p"
    using "3.prems" by simp
  ultimately show ?case
    using all_lower_literals(5) by (auto simp: all_lower_def)
qed

lemma mask_index_idem: "mask_index (int (mask_index i)) = mask_index i"
proof -
  have "0 \<le> i AND 0xFFFF"
    by simp
  then have "int (nat (i AND 0xFFFF)) = i AND 0xFFFF"
    by simp
  then show ?thesis
    by (simp add: mask_index_def and.assoc)
qed

lemma win_str_lower:
  assumes "\<And>p. p \<in> set pieces \<Longrightarrow> all_lower p"
  shows "all_lower (win_str pieces)"
proof -
  have "\<And>q. q \<in> set (concat (map win_parts pieces)) \<Longrightarrow> all_lower q"
    using assms by (auto dest: win_parts_lower)
  then have "all_lower (join_sep (concat (map win_parts pieces)))"
    by (rule join_sep_lower)
  then show ?thesis
    by (simp add: win_str_def Let_def all_lower_literals)
qed

lemma rsplit1_hd_lower: "all_lower s \<Longrightarrow> all_lower (hd (rsplit1 c s))"
proof -
  assume s: "all_lower s"
  have "set (tl (dropWhile (\<lambda>x. x \<noteq> c) (rev s))) \<subseteq> set s"
    by (metis list.set_sel(2) set_dropWhileD set_rev subsetI tl_Nil)
  then have "all_lower (rev (tl (dropWhile (\<lambda>x. x \<noteq> c) (rev s))))"
    using s by (simp add: all_lower_def subset_iff)
  then show ?thesis using s by (simp add: rsplit1_def)
qed

lemma strip_unique_suffix_lower:
  assumes "\<And>p. p \<in> set pieces \<Longrightarrow> all_lower p" "q \<in> set (strip_unique_suffix can pieces)"
  shows "all_lower q"
proof (cases "pieces = []")
  case True
  then show ?thesis using assms(2) by (simp add: strip_unique_suffix_def)
next
  case False
  then have "all_lower (last pieces)"
    using assms(1) last_in_set by blast
  then have h: "all_lower (hd (rsplit1 (CHR ''#'') (last pieces)))"
    by (rule rsplit1_hd_lower)
  have "q \<in> set pieces \<or> q \<in> set (butlast pieces) \<or> q = hd (rsplit1 (CHR ''#'') (last pieces))"
    using assms(2) False by (auto simp: strip_unique_suffix_def Let_def split: if_splits)
  then show ?thesis
    using h assms(1) by (auto dest: in_set_butlastD)
qed

lemma renamed_lower:
  assumes "all_lower np3"
  shows "all_lower (get_unique_name m free (win_str (strip_unique_suffix can (win_parts np3))) ext')"
proof -
  have "\<And>q. q \<in> set (strip_unique_suffix can (win_parts np3)) \<Longrightarrow> all_lower q"
    using strip_unique_suffix_lower [of "win_parts np3" _ can] win_parts_lower [OF assms] by blast
  then have "all_lower (win_str (strip_unique_suffix can (win_parts np3)))"
    by (rule win_str_lower)
  then show ?thesis
    unfolding get_unique_name_def by (intro get_unique_name_loop_lower)
qed


lemma set_path_shape:
  assumes "set_path sanitize s index cand uniq pre = Inr (r, s')"
  shows "s' = s \<or> (\<exists>idx np. idx < length (index_map s) \<and> lower np = np
      \<and> map_of (path_map s) (np @ ''.'' @ lower (class_1 (index_map s ! idx))) \<in> {None, Some idx}
      \<and> s' = s\<lparr>path_map := AList.update (np @ ''.'' @ lower (class_1 (index_map s ! idx))) idx
                   (AList.delete (lower (path (index_map s ! idx)) @ ''.'' @ lower (class_1 (index_map s ! idx)))
                      (path_map s)),
                 index_map := (index_map s)[idx := (index_map s ! idx)\<lparr>path := np\<rparr>]\<rparr>)"
proof (cases index)
  case None
  then show ?thesis using assms by (simp add: set_path_def)
next
  case (Some i)
  show ?thesis
  proof (cases "get_index_ref s (Some (int (mask_index i)))")
    case None
    then show ?thesis using assms Some by (simp add: set_path_def Let_def)
  next
    case (Some tag_ref)
    then have idx: "mask_index i < length (index_map s)" "index_map s ! mask_index i = tag_ref"
      by (auto simp: get_index_ref_def mask_index_idem split: if_splits)
    let ?idx = "mask_index i"
    let ?ext = "''.'' @ lower (class_1 tag_ref)"
    obtain np where
      np: "all_lower np"
      and res: "set_path sanitize s index cand uniq pre =
        (if map_of (path_map s) (np @ ?ext) \<notin> {None, Some ?idx} then Inl KeyError
         else Inr (Some (np @ ?ext),
                s\<lparr>path_map := AList.update (np @ ?ext) ?idx
                      (AList.delete (lower (path tag_ref) @ ?ext) (path_map s)),
                  index_map := (index_map s)[?idx := tag_ref\<lparr>path := np\<rparr>]\<rparr>))"
    proof -
      define np1 where "np1 = (if pre \<and> \<not> startswith (lower cand) (root_dir_prefix s)
                      then root_dir_prefix s @ lower cand else lower cand)"
      define np2 where "np2 = (if np1 = [] \<or> last np1 = CHR 0x5C
                              then np1 @ ''protected_'' @ string_of_nat ?idx else np1)"
      define np3 where "np3 = lower (strip (sanitize np2))"
      define can where "can = (lower (class_1 tag_ref) \<notin> perm_suffixed_tag_classes s)"
      define issue where "issue = ((\<not> can \<and> np3 \<noteq> [] \<and> last np3 \<in> set DIGIT_CHARS)
          \<or> (uniq \<and> map_of (path_map s) (np3 @ ?ext) \<notin> {None, Some ?idx}))"
      define np4 where "np4 = (if issue
                              then get_unique_name (path_map s) (\<lambda>v. v = ?idx)
                                     (win_str (strip_unique_suffix can (win_parts np3)))
                                     ((if can then [] else ''_'') @ ?ext)
                                   @ (if can then [] else ''_'')
                              else np3)"
      have l3: "all_lower np3"
        by (simp add: np3_def all_lower_lower)
      have "all_lower np4"
        using l3 renamed_lower [OF l3, of "path_map s" "\<lambda>v. v = ?idx" can]
        by (simp add: np4_def all_lower_append all_lower_literals all_lower_Nil)
      moreover have "set_path sanitize s index cand uniq pre =
        (if map_of (path_map s) (np4 @ ?ext) \<notin> {None, Some ?idx} then Inl KeyError
         else Inr (Some (np4 @ ?ext),
                s\<lparr>path_map := AList.update (np4 @ ?ext) ?idx
                      (AList.delete (lower (path tag_ref) @ ?ext) (path_map s)),
                  index_map := (index_map s)[?idx := tag_ref\<lparr>path := np4\<rparr>]\<rparr>))"
        using \<open>index = Some i\<close> Some
        unfolding set_path_def np4_def issue_def can_def np3_def np2_def np1_def
        by (simp add: Let_def)
      ultimately show ?thesis
        using that by blast
    qed
    show ?thesis
      using assms np idx unfolding res
      by (auto simp: lower_fix_iff split: if_splits)
  qed
qed



lemma init_loop_index_map: "index_map (init_loop refs i s) = index_map s"
  by (induction refs arbitrary: i s) (simp_all add: Let_def)



lemma set_path_frame:
  assumes "set_path sanitize s index cand uniq pre = Inr (r, s')"
  shows "overwritables s' = overwritables s" "priorities s' = priorities s"
    "def_priority s' = def_priority s"
    "length (index_map s') = length (index_map s)"
    "\<And>j. j < length (index_map s) \<Longrightarrow> indexed (index_map s' ! j) = indexed (index_map s ! j)"
    "\<And>j. j < length (index_map s) \<Longrightarrow> class_1 (index_map s' ! j) = class_1 (index_map s ! j)"
  using set_path_shape [OF assms] by (auto simp: nth_list_update split: if_splits)

lemma set_priority_frame:
  "overwritables (set_priority s index p) = overwritables s"
  "index_map (set_priority s index p) = index_map s"
  "path_map (set_priority s index p) = path_map s"
  "def_priority (set_priority s index p) = def_priority s"
  by (auto simp: set_priority_def split: option.splits)

lemma set_path_by_priority_cases:
  assumes "set_path_by_priority sanitize s index cand priority override = Inr (r, s'')"
  shows "s'' = s \<or>
         (\<exists>new_path s' tag_ref. get_index_ref s index = Some tag_ref
            \<and> get_will_overwrite s index (Some (proposed_priority s priority)) override = Inr True
            \<and> set_path sanitize s index cand True True = Inr (new_path, s')
            \<and> r = proposed_priority s priority
            \<and> s'' = set_priority s' index (proposed_priority s priority))"
proof (cases "get_index_ref s index")
  case None
  then show ?thesis
    using assms by (simp add: set_path_by_priority_def)
next
  case (Some tag_ref)
  then show ?thesis
    using assms
    by (auto simp: set_path_by_priority_def proposed_priority_def Let_def
        split: sum.splits bool.splits prod.splits)
qed








lemma set_path_committed:
  assumes "mask_index i < length (index_map s)"
  shows "set_path sanitize s (Some i) cand uniq pre =
     (if map_of (path_map s)
           (committed_path sanitize s (mask_index i) cand uniq pre
              @ ''.'' @ lower (class_1 (index_map s ! mask_index i)))
         \<notin> {None, Some (mask_index i)}
      then Inl KeyError
      else Inr (Some (committed_path sanitize s (mask_index i) cand uniq pre
                       @ ''.'' @ lower (class_1 (index_map s ! mask_index i))),
                commit s (mask_index i) (committed_path sanitize s (mask_index i) cand uniq pre)))"
  using assms
  unfolding set_path_def committed_path_def needs_unique_name_def normalized_path_def
    prepared_path_def commit_def
  by (simp add: Let_def get_index_ref_def mask_index_idem)

lemma set_path_unique_committed:
  assumes "mask_index i < length (index_map s)"
  shows "set_path sanitize s (Some i) cand True pre =
           Inr (Some (committed_path sanitize s (mask_index i) cand True pre
                       @ ''.'' @ lower (class_1 (index_map s ! mask_index i))),
                commit s (mask_index i) (committed_path sanitize s (mask_index i) cand True pre))"
    and "map_of (path_map s)
           (committed_path sanitize s (mask_index i) cand True pre
              @ ''.'' @ lower (class_1 (index_map s ! mask_index i)))
         \<in> {None, Some (mask_index i)}"
proof -
  obtain r s' where "set_path sanitize s (Some i) cand True pre = Inr (r, s')"
    using set_path_unique_never_raises by blast
  then show "set_path sanitize s (Some i) cand True pre =
           Inr (Some (committed_path sanitize s (mask_index i) cand True pre
                       @ ''.'' @ lower (class_1 (index_map s ! mask_index i))),
                commit s (mask_index i) (committed_path sanitize s (mask_index i) cand True pre))"
    and "map_of (path_map s)
           (committed_path sanitize s (mask_index i) cand True pre
              @ ''.'' @ lower (class_1 (index_map s ! mask_index i)))
         \<in> {None, Some (mask_index i)}"
    unfolding set_path_committed [OF assms] by (auto split: if_splits)
qed

lemma commit_frame:
  "priorities (commit s idx np) = priorities s"
  "priority_mins (commit s idx np) = priority_mins s"
  "overwritables (commit s idx np) = overwritables s"
  "def_priority (commit s idx np) = def_priority s"
  "root_dir_prefix (commit s idx np) = root_dir_prefix s"
  "perm_suffixed_tag_classes (commit s idx np) = perm_suffixed_tag_classes s"
  "length (index_map (commit s idx np)) = length (index_map s)"
  "index_map (commit s idx np) = (index_map s)[idx := (index_map s ! idx)\<lparr>path := np\<rparr>]"
  by (simp_all add: commit_def Let_def)

lemma commit_owner:
  "map_of (path_map (commit s idx np)) (np @ ''.'' @ lower (class_1 (index_map s ! idx))) = Some idx"
  by (simp add: commit_def Let_def update_conv')

lemma lower_append: "lower (a @ b) = lower a @ lower b"
  by (simp add: lower_def)

lemma full_path_split: "full_path ref = lower (path ref) @ ''.'' @ lower (class_1 ref)"
  by (simp add: full_path_def lower_def lower_char_def)

lemma init_loop_path_map_other:
  "k \<notin> full_path ` set refs \<Longrightarrow> map_of (path_map (init_loop refs i s)) k = map_of (path_map s) k"
proof (induction refs arbitrary: i s)
  case Nil
  then show ?case by simp
next
  case (Cons ref refs)
  then have "k \<noteq> lower (path ref @ ''.'' @ class_1 ref)" "k \<notin> full_path ` set refs"
    by (auto simp: full_path_def)
  then show ?case
    using Cons.IH by (simp add: Let_def update_conv')
qed

lemma init_loop_path_map_nth:
  "distinct (map full_path refs) \<Longrightarrow> n < length refs
   \<Longrightarrow> map_of (path_map (init_loop refs i s)) (full_path (refs ! n)) = Some (i + n)"
proof (induction refs arbitrary: i s n)
  case Nil
  then show ?case by simp
next
  case (Cons ref refs)
  show ?case
  proof (cases n)
    case 0
    have "full_path ref \<notin> full_path ` set refs"
      using Cons.prems(1) by simp
    then show ?thesis
      using 0 by (simp add: Let_def init_loop_path_map_other update_conv' full_path_def)
  next
    case (Suc m)
    then have "m < length refs" "distinct (map full_path refs)"
      using Cons.prems by simp_all
    then show ?thesis
      using Suc Cons.IH [of m "Suc i"] by (simp add: Let_def)
  qed
qed

lemma init_path_map_consistent:
  "distinct (map full_path tag_index_array)
   \<Longrightarrow> path_map_consistent (init tag_index_array dp pm pmm perm)"
  by (simp add: path_map_consistent_def init_def init_loop_index_map init_loop_path_map_nth)

lemma set_path_path_map_consistent:
  assumes "path_map_consistent s" "set_path sanitize s index cand uniq pre = Inr (r, s')"
  shows "path_map_consistent s'"
  using set_path_shape [OF assms(2)]
proof
  assume "s' = s"
  then show ?thesis using assms(1) by simp
next
  assume "\<exists>idx np. idx < length (index_map s) \<and> lower np = np
      \<and> map_of (path_map s) (np @ ''.'' @ lower (class_1 (index_map s ! idx))) \<in> {None, Some idx}
      \<and> s' = s\<lparr>path_map := AList.update (np @ ''.'' @ lower (class_1 (index_map s ! idx))) idx
                   (AList.delete (lower (path (index_map s ! idx)) @ ''.'' @ lower (class_1 (index_map s ! idx)))
                      (path_map s)),
                 index_map := (index_map s)[idx := (index_map s ! idx)\<lparr>path := np\<rparr>]\<rparr>"
  then obtain idx np where idx: "idx < length (index_map s)" and np: "lower np = np"
    and free: "map_of (path_map s) (np @ ''.'' @ lower (class_1 (index_map s ! idx))) \<in> {None, Some idx}"
    and s': "s' = s\<lparr>path_map := AList.update (np @ ''.'' @ lower (class_1 (index_map s ! idx))) idx
                   (AList.delete (lower (path (index_map s ! idx)) @ ''.'' @ lower (class_1 (index_map s ! idx)))
                      (path_map s)),
                 index_map := (index_map s)[idx := (index_map s ! idx)\<lparr>path := np\<rparr>]\<rparr>"
    by blast
  let ?new = "np @ ''.'' @ lower (class_1 (index_map s ! idx))"
  let ?old = "full_path (index_map s ! idx)"
  have old: "map_of (path_map s) ?old = Some idx"
    using assms(1) idx by (simp add: path_map_consistent_def)
  have pm': "map_of (path_map s') = ((map_of (path_map s))(?old := None))(?new \<mapsto> idx)"
    by (simp add: s' update_conv' delete_conv' full_path_split)
  show ?thesis
    unfolding path_map_consistent_def
  proof (intro allI impI)
    fix j assume "j < length (index_map s')"
    then have j: "j < length (index_map s)"
      by (simp add: s')
    show "map_of (path_map s') (full_path (index_map s' ! j)) = Some j"
    proof (cases "j = idx")
      case True
      then have "full_path (index_map s' ! j) = ?new"
        using idx np by (simp add: s' full_path_split)
      then show ?thesis
        using True by (simp add: pm')
    next
      case False
      then have same: "full_path (index_map s' ! j) = full_path (index_map s ! j)"
        by (simp add: s')
      have cur: "map_of (path_map s) (full_path (index_map s ! j)) = Some j"
        using assms(1) j by (simp add: path_map_consistent_def)
      have "full_path (index_map s ! j) \<noteq> ?new"
        using free cur False by auto
      moreover have "full_path (index_map s ! j) \<noteq> ?old"
        using old cur False by auto
      ultimately show ?thesis
        using cur by (simp add: same pm')
    qed
  qed
qed

lemma set_priority_path_map_consistent:
  "path_map_consistent s \<Longrightarrow> path_map_consistent (set_priority s index p)"
  by (simp add: path_map_consistent_def set_priority_frame)

lemma exec_call_path_map_consistent:
  assumes "path_map_consistent s" "exec_call sanitize s c = Inr s'"
  shows "path_map_consistent s'"
proof (cases c)
  case (SetPath index p uniq pre)
  then obtain r where "set_path sanitize s index p uniq pre = Inr (r, s')"
    using assms(2) by (auto split: sum.splits)
  then show ?thesis
    using assms(1) by (rule set_path_path_map_consistent [rotated])
next
  case (SetPathByPriority index p priority override)
  then obtain r where "set_path_by_priority sanitize s index p priority override = Inr (r, s')"
    using assms(2) by (auto split: sum.splits)
  from set_path_by_priority_cases [OF this] show ?thesis
    using assms(1)
    by (auto intro: set_priority_path_map_consistent set_path_path_map_consistent)
next
  case (SetPriority index priority)
  then show ?thesis
    using assms by (auto intro: set_priority_path_map_consistent)
next
  case (SetPriorityMin index priority)
  then show ?thesis
    using assms
    by (auto simp: path_map_consistent_def set_priority_min_def split: option.splits if_splits)
next
  case (SetRootDirPrefix v)
  then show ?thesis
    using assms by (auto simp: path_map_consistent_def set_root_dir_prefix_def Let_def)
next
  case (SetOverwritable index new_val)
  then show ?thesis
    using assms
    by (auto simp: path_map_consistent_def set_overwritable_def split: option.splits if_splits)
qed

lemma run_calls_path_map_consistent:
  "path_map_consistent s \<Longrightarrow> path_map_consistent (run_calls sanitize s cs)"
proof (induction cs arbitrary: s)
  case Nil
  then show ?case by simp
next
  case (Cons c cs)
  then show ?case
    by (cases "exec_call sanitize s c") (auto dest: exec_call_path_map_consistent)
qed

lemma path_map_consistent_distinct:
  assumes "path_map_consistent s"
  shows "distinct (map full_path (index_map s))"
proof -
  have "\<And>i j. i < length (index_map s) \<Longrightarrow> j < length (index_map s)
      \<Longrightarrow> full_path (index_map s ! i) = full_path (index_map s ! j) \<Longrightarrow> i = j"
    using assms unfolding path_map_consistent_def by (metis option.inject)
  then show ?thesis
    by (auto simp: distinct_conv_nth)
qed



lemma get_will_overwrite_True_le:
  "get_will_overwrite s index (Some p) override = Inr True \<Longrightarrow> get_priority s index NegInf \<le> p"
  by (auto simp: get_will_overwrite_def Let_def split: if_splits option.splits)

lemma set_path_by_priority_alt:
  "set_path_by_priority sanitize s index cand priority override =
     (case get_index_ref s index of
        None \<Rightarrow> Inr (NegInf, s)
      | Some tag_ref \<Rightarrow>
          (case get_will_overwrite s index (Some (proposed_priority s priority)) override of
             Inl e \<Rightarrow> Inl e
           | Inr False \<Rightarrow> Inr (get_priority s index NegInf, s)
           | Inr True \<Rightarrow>
               (case set_path sanitize s index cand True True of
                  Inl e \<Rightarrow> Inl e
                | Inr (_, s') \<Rightarrow>
                    Inr (proposed_priority s priority,
                         set_priority s' index (proposed_priority s priority)))))"
  unfolding set_path_by_priority_def proposed_priority_def Let_def by (rule refl)

lemma set_path_by_priority_total:
  "\<exists>r s'. set_path_by_priority sanitize s index cand priority override = Inr (r, s')"
proof (cases "get_index_ref s index")
  case None
  then show ?thesis by (simp add: set_path_by_priority_def)
next
  case (Some tag_ref)
  obtain r s' where sp: "set_path sanitize s index cand True True = Inr (r, s')"
    using set_path_unique_never_raises by blast
  show ?thesis
    using Some sp get_will_overwrite_valid [OF Some, of "proposed_priority s priority" override]
    by (auto simp: set_path_by_priority_alt split: bool.splits)
qed

lemma set_path_by_priority_priority:
  assumes "set_path_by_priority sanitize s index cand priority override = Inr (r, s')"
  shows "if get_index_ref s index \<noteq> None \<and> map_option mask_index index = Some (mask_index i)
            \<and> get_will_overwrite s index (Some (proposed_priority s priority)) override = Inr True
         then get_priority s' (Some i) NegInf = proposed_priority s priority
              \<and> get_priority s (Some i) NegInf \<le> proposed_priority s priority
         else get_priority s' (Some i) NegInf = get_priority s (Some i) NegInf"
proof (cases "get_index_ref s index")
  case None
  then show ?thesis
    using assms by (simp add: set_path_by_priority_def)
next
  case (Some tag_ref)
  then obtain k where k: "index = Some k" "mask_index k < length (index_map s)"
    by (auto simp: get_index_ref_def split: option.splits if_splits)
  let ?pp = "proposed_priority s priority"
  obtain b where gwo: "get_will_overwrite s index (Some ?pp) override = Inr b"
    using get_will_overwrite_valid [OF Some] by blast
  show ?thesis
  proof (cases b)
    case False
    then show ?thesis
      using assms Some gwo
      by (simp add: set_path_by_priority_alt)
  next
    case True
    obtain np s1 where sp: "set_path sanitize s index cand True True = Inr (np, s1)"
      using set_path_unique_never_raises by blast
    have s': "s' = set_priority s1 index ?pp"
      using assms Some gwo True sp
      by (auto simp: set_path_by_priority_alt)
    have fr: "priorities s1 = priorities s" "length (index_map s1) = length (index_map s)"
      using set_path_frame [OF sp] by simp_all
    have le: "get_priority s index NegInf \<le> ?pp"
      using gwo True by (auto dest: get_will_overwrite_True_le)
    show ?thesis
      using k fr le gwo True Some
      by (auto simp: s' set_priority_def get_priority_def)
  qed
qed

lemma run_proposals_append:
  "run_proposals sanitize s (ps @ qs) = run_proposals sanitize (run_proposals sanitize s ps) qs"
  by (induction ps arbitrary: s) auto

lemma run_proposals_mono:
  "get_priority s (Some i) NegInf \<le> get_priority (run_proposals sanitize s ps) (Some i) NegInf"
proof (induction ps arbitrary: s)
  case Nil
  then show ?case by simp
next
  case (Cons x ps)
  obtain index cand priority override where x: "x = (index, cand, priority, override)"
    by (cases x) auto
  obtain r s' where sp: "set_path_by_priority sanitize s index cand priority override = Inr (r, s')"
    using set_path_by_priority_total by blast
  have "get_priority s (Some i) NegInf \<le> get_priority s' (Some i) NegInf"
    using set_path_by_priority_priority [OF sp, of i] by (auto split: if_splits)
  also have "\<dots> \<le> get_priority (run_proposals sanitize s' ps) (Some i) NegInf"
    by (rule Cons.IH)
  finally show ?case
    by (simp add: x sp)
qed

lemma run_proposals_max:
  "get_priority (run_proposals sanitize s ps) (Some i) NegInf
     = Max (insert (get_priority s (Some i) NegInf) (set (accepted sanitize s (mask_index i) ps)))"
proof (induction ps arbitrary: s)
  case Nil
  then show ?case by simp
next
  case (Cons x ps)
  obtain index cand priority override where x: "x = (index, cand, priority, override)"
    by (cases x) auto
  obtain r s' where sp: "set_path_by_priority sanitize s index cand priority override = Inr (r, s')"
    using set_path_by_priority_total by blast
  let ?A = "set (accepted sanitize s' (mask_index i) ps)"
  let ?pp = "proposed_priority s priority"
  have IH: "get_priority (run_proposals sanitize s' ps) (Some i) NegInf
      = Max (insert (get_priority s' (Some i) NegInf) ?A)"
    by (rule Cons.IH)
  define acc where "acc \<longleftrightarrow> get_index_ref s index \<noteq> None
      \<and> map_option mask_index index = Some (mask_index i)
      \<and> get_will_overwrite s index (Some ?pp) override = Inr True"
  have run: "run_proposals sanitize s (x # ps) = run_proposals sanitize s' ps"
    by (simp add: x sp)
  have acl: "accepted sanitize s (mask_index i) (x # ps)
      = (if acc then [?pp] else []) @ accepted sanitize s' (mask_index i) ps"
    by (simp add: x sp acc_def)
  have step: "if acc then get_priority s' (Some i) NegInf = ?pp
              \<and> get_priority s (Some i) NegInf \<le> ?pp
         else get_priority s' (Some i) NegInf = get_priority s (Some i) NegInf"
    using set_path_by_priority_priority [OF sp, of i] unfolding acc_def .
  show ?case
  proof (cases acc)
    case True
    then have eq: "get_priority s' (Some i) NegInf = ?pp"
      and le: "get_priority s (Some i) NegInf \<le> ?pp"
      using step by simp_all
    have "?pp \<le> Max (insert ?pp ?A)"
      by (intro Max_ge) simp_all
    then have "get_priority s (Some i) NegInf \<le> Max (insert ?pp ?A)"
      using le by (rule order_trans [rotated])
    then have "Max (insert (get_priority s (Some i) NegInf) (insert ?pp ?A)) = Max (insert ?pp ?A)"
      by (simp add: max_absorb2)
    then show ?thesis
      unfolding run acl using True IH eq by simp
  next
    case False
    then have "get_priority s' (Some i) NegInf = get_priority s (Some i) NegInf"
      using step by simp
    then show ?thesis
      unfolding run acl using False IH by simp
  qed
qed


section \<open>Properties of the walker\<close>




lemma cycle3: "map_option (\<lambda>(st, r). (r, map path (index_map (handler st)), seen st))
       (heuristic_deprotect 3 id (tagc_table id (Fin 1) cycle_map) cycle_map
          cycle_state (Some 0) [] [] [] default_kwargs)
     = Some (Inr (Fin 0), [''protected_0'', ''protected_0'' @ [CHR 0x5C] @ ''protected_1''], {})"
  by code_simp


lemma tagc_references_mono:
  assumes "walker_le w w'"
  shows "tagc_references w st root_dir sub_dir kw min_prio bs = Some r
         \<Longrightarrow> tagc_references w' st root_dir sub_dir kw min_prio bs = Some r"
proof (induction bs arbitrary: st min_prio)
  case Nil
  then show ?case by simp
next
  case (Cons b bs)
  from Cons.prems obtain st' x where w: "w st b root_dir sub_dir [] kw = Some (st', x)"
    by (auto split: option.splits)
  then have w': "w' st b root_dir sub_dir [] kw = Some (st', x)"
    using assms by (simp add: walker_le_def)
  show ?case
    using Cons.prems Cons.IH w w' by (cases x) auto
qed

lemma rename_tagc_mono:
  assumes "walker_le w w'"
    and "rename_tagc sanitize low hm w st tag_id root_dir sub_dir name kw min_prio = Some r"
  shows "rename_tagc sanitize low hm w' st tag_id root_dir sub_dir name kw min_prio = Some r"
proof (cases "get_meta hm tag_id")
  case None
  then show ?thesis
    using assms(2) by (simp add: rename_tagc_def)
next
  case (Some refs)
  let ?name = "if name = [] then ''protected_'' @ string_of_int tag_id else name"
  show ?thesis
  proof (cases "set_path_by_priority sanitize (handler st) (Some tag_id)
                  (root_dir @ sub_dir @ ?name) (Some low) (kw_override kw)")
    case (Inl e)
    then show ?thesis
      using assms(2) Some by (simp add: rename_tagc_def)
  next
    case (Inr rh)
    obtain a h where rh: "rh = (a, h)"
      by (cases rh) auto
    show ?thesis
    proof (cases "get_sub_dir h (Some tag_id) root_dir")
      case (Inl e)
      then show ?thesis
        using assms(2) Some Inr rh by (simp add: rename_tagc_def)
    next
      case (Inr d)
      then show ?thesis
        using assms(2) Some \<open>set_path_by_priority sanitize (handler st) (Some tag_id)
                  (root_dir @ sub_dir @ ?name) (Some low) (kw_override kw) = Inr rh\<close> rh
          tagc_references_mono [OF assms(1)]
        by (simp add: rename_tagc_def)
    qed
  qed
qed

lemma walk_traverse_mono:
  assumes "walker_le w w'"
    and "walk_traverse w sanitize (tagc_table sanitize low hm) hm st tid root_dir sub_dir name kw
           = Some r"
  shows "walk_traverse w' sanitize (tagc_table sanitize low hm) hm st tid root_dir sub_dir name kw
           = Some r"
  using assms(2) rename_tagc_mono [OF assms(1)]
  by (auto simp: walk_traverse_def tagc_table_def Let_def split: option.splits if_splits)

lemma heuristic_deprotect_Suc_mono:
  "walker_le (heuristic_deprotect fuel sanitize (tagc_table sanitize low hm) hm)
             (heuristic_deprotect (Suc fuel) sanitize (tagc_table sanitize low hm) hm)"
proof (induction fuel)
  case 0
  then show ?case by (simp add: walker_le_def)
next
  case (Suc fuel)
  show ?case
    unfolding walker_le_def
  proof (intro allI impI)
    fix st tag_id root_dir sub_dir name kw r
    assume a: "heuristic_deprotect (Suc fuel) sanitize (tagc_table sanitize low hm) hm
                 st tag_id root_dir sub_dir name kw = Some r"
    have step: "\<And>f. heuristic_deprotect (Suc f) sanitize (tagc_table sanitize low hm) hm
                 st tag_id root_dir sub_dir name kw =
       (case tag_id of
          None \<Rightarrow> Some (st, Inr PosInf)
        | Some tid \<Rightarrow>
            (if \<not> mask_index tid < length (tag_classes hm) then Some (st, Inr PosInf)
             else
               (case walk_gate st (mask_index tid) kw of
                  Return curr_min_prio \<Rightarrow> Some (st, Inr curr_min_prio)
                | Proceed \<Rightarrow>
                    walk_traverse
                      (heuristic_deprotect f sanitize (tagc_table sanitize low hm) hm)
                      sanitize (tagc_table sanitize low hm) hm st tid root_dir sub_dir name kw)))"
      by simp
    show "heuristic_deprotect (Suc (Suc fuel)) sanitize (tagc_table sanitize low hm) hm
                 st tag_id root_dir sub_dir name kw = Some r"
      using a unfolding step [of "Suc fuel"] step [of fuel]
      by (auto split: option.splits if_splits gate.splits
          simp del: heuristic_deprotect.simps intro: walk_traverse_mono [OF Suc])
  qed
qed

lemma heuristic_deprotect_fuel_mono:
  assumes "fuel \<le> fuel'"
    and "heuristic_deprotect fuel sanitize (tagc_table sanitize low hm) hm
           st tag_id root_dir sub_dir name kw = Some r"
  shows "heuristic_deprotect fuel' sanitize (tagc_table sanitize low hm) hm
           st tag_id root_dir sub_dir name kw = Some r"
  using assms
proof (induction fuel' arbitrary: )
  case 0
  then show ?case by simp
next
  case (Suc fuel')
  show ?case
  proof (cases "fuel = Suc fuel'")
    case True
    then show ?thesis using Suc.prems by simp
  next
    case False
    then have "heuristic_deprotect fuel' sanitize (tagc_table sanitize low hm) hm
           st tag_id root_dir sub_dir name kw = Some r"
      using Suc by simp
    then show ?thesis
      using heuristic_deprotect_Suc_mono [of fuel' sanitize low hm]
      unfolding walker_le_def by blast
  qed
qed


text \<open>
  With a root directory that the new path of the first collection starts with,
  \<open>get_sub_dir\<close> raises inside its policy, the walker catches that, and the second
  collection is never visited.
\<close>

lemma cycle_walk_nonempty_root:
  "map_option (\<lambda>(st, r). (r, map path (index_map (handler st)), seen st))
       (heuristic_deprotect 3 id (tagc_table id (Fin 1) cycle_map) cycle_map
          cycle_state (Some 0) (''r'' @ [CHR 0x5C]) [] [] default_kwargs)
     = Some (Inr (Fin 1), [''r'' @ [CHR 0x5C] @ ''protected_0'', []], {})"
  by code_simp








subsection \<open>The walk over two collections that reference each other\<close>














section \<open>Properties of the compactor\<close>


lemma build_trie_append:
  "build_trie sanitize s max_len (pre @ rest) h =
     (case build_trie sanitize s max_len pre h of
        Built h' \<Rightarrow> build_trie sanitize s max_len rest h'
      | Raised e \<Rightarrow> Raised e
      | Nested \<Rightarrow> Nested)"
  by (induction pre arbitrary: h) (auto split: phase1.splits)

lemma trie_add_nested:
  assumes "too_nested max_len (win_parts (sanitize (lower (fst item))))" "0 \<le> max_len"
  shows "trie_add sanitize s max_len h item = Nested"
proof -
  have "win_parts (sanitize (lower (fst item))) \<noteq> []"
    using assms by (auto simp: too_nested_def)
  then show ?thesis
    using assms(1) by (simp add: trie_add_def str_without_suffix_def Let_def)
qed

lemma setdefault_dirs_error: "setdefault_dirs h d ds = Inl e \<Longrightarrow> e = AttributeError"
  by (induction h d ds rule: setdefault_dirs.induct) (auto split: tval.splits option.splits)

lemma trie_add_not_nested:
  assumes "\<not> too_nested max_len (win_parts (sanitize (lower (fst item))))"
  shows "trie_add sanitize s max_len h item \<noteq> Nested"
    and "trie_add sanitize s max_len h item \<noteq> Raised PathTooNested"
  using assms
  by (auto simp: trie_add_def str_without_suffix_def Let_def
      split: sum.splits tval.splits if_splits dest: setdefault_dirs_error)

lemma build_trie_not_nested:
  assumes "\<forall>item\<in>set items. \<not> too_nested max_len (win_parts (sanitize (lower (fst item))))"
  shows "build_trie sanitize s max_len items h \<noteq> Nested
         \<and> build_trie sanitize s max_len items h \<noteq> Raised PathTooNested"
  using assms
proof (induction items arbitrary: h)
  case Nil
  then show ?case by simp
next
  case (Cons item items)
  then show ?case
    using trie_add_not_nested [of max_len sanitize item s h]
    by (cases "trie_add sanitize s max_len h item") auto
qed

lemma shorten_for_error:
  "shorten_for st names = Inl e \<Longrightarrow> e \<noteq> PathTooNested"
  by (induction st names rule: shorten_for.induct)
     (auto simp: Let_def split: option.splits tval.splits if_splits)

lemma shorten_loop_error:
  assumes "shorten_loop st = Some r"
  shows "r \<noteq> Inl PathTooNested"
  by (rule shorten_loop.raw_induct [OF _ assms])
     (auto split: sum.splits prod.splits if_splits list.splits dest: shorten_for_error)

lemma apply_for_error:
  "apply_for s do_printout st names = Inl e \<Longrightarrow> e \<noteq> PathTooNested"
  by (induction s do_printout st names rule: apply_for.induct)
     (auto simp: Let_def split: option.splits tval.splits if_splits)

lemma apply_loop_error:
  assumes "apply_loop s do_printout st = Some r"
  shows "r \<noteq> Inl PathTooNested"
  by (rule apply_loop.raw_induct [OF _ assms])
     (auto split: sum.splits prod.splits if_splits list.splits dest: apply_for_error)

lemma over_limit_warnings_no_nested: "TooNested n \<notin> set (over_limit_warnings max_len refs)"
  by (auto simp: over_limit_warnings_def)



lemma shorten_paths_keeps_paths:
  assumes "shorten_paths sanitize s max_len do_printout print_errors = Some (Inr (s', out))"
  shows "index_map s' = index_map s"
  using assms
  by (auto simp: shorten_paths_def split: phase1.splits option.splits sum.splits if_splits)


text \<open>The compactor on the pinned tag with the long path, phase by phase.\<close>

lemma pinned_long_index_map:
  "index_map pinned_long_handler
     = [\<lparr>path = ''x'' @ [CHR 0x5C] @ ''abcdefgh'', class_1 = ''bitmap'', indexed = True\<rparr>]"
  by (simp add: pinned_long_handler_def init_def init_loop_index_map del: init_loop.simps)

lemma pinned_long_trie:
  "build_trie id pinned_long_handler 5 (path_map pinned_long_handler) [[], []]
     = Built [[(''x'', VDict 2)], [], [(''abcdefgh.bitmap'', VRef 0)]]"
  by code_simp

lemma pinned_long_shorten:
  "shorten_loop
     \<lparr>sh_heap = [[(''x'', VDict 2)], [], [(''abcdefgh.bitmap'', VRef 0)]], sh_stack = [],
      sh_parent = [], sh_curr_paths = 0, sh_curr_new_paths = VDict 1, sh_reparent = []\<rparr>
   = Some (Inr \<lparr>sh_heap = [[], [(''x'', VDict 3)], [], [(''abcdefgh.bitmap'', VRef 0)]],
                 sh_stack = [], sh_parent = [], sh_curr_paths = 0,
                 sh_curr_new_paths = VDict 1, sh_reparent = []\<rparr>)"
  by code_simp

lemma pinned_long_apply:
  "apply_loop pinned_long_handler True
     \<lparr>ap_heap = [[], [(''x'', VDict 3)], [], [(''abcdefgh.bitmap'', VRef 0)]], ap_stack = [],
      ap_path_pieces = [], ap_curr_paths = 1, ap_renamed = []\<rparr>
   = Some (Inr \<lparr>ap_heap = [[], [], [], []], ap_stack = [], ap_path_pieces = [],
                 ap_curr_paths = 1, ap_renamed = []\<rparr>)"
  by code_simp

lemma pinned_long_run:
  "shorten_paths id pinned_long_handler 5 True False
     = Some (Inr (pinned_long_handler
                    \<lparr>path_map := remake_path_map (index_map pinned_long_handler) 0 []\<rparr>,
                  [OverLimit (''x'' @ [CHR 0x5C] @ ''abcdefgh'')]))"
  by (simp add: shorten_paths_def pinned_long_trie pinned_long_shorten pinned_long_apply
      over_limit_warnings_def pinned_long_index_map del: One_nat_def)

section \<open>The claims\<close>

lemma mask_index_example: "mask_index 0 = 0" "mask_index 1 = 1"
  by (simp_all add: mask_index_def)

lemma example_handler_eval:
  "example_handler =
     \<lparr>root_dir_prefix = [],
      path_map = [(''x'' @ [CHR 0x5C] @ ''a.bitmap'', 0), (''x'' @ [CHR 0x5C] @ ''b.bitmap'', 1)],
      index_map = example_index,
      priorities = [0 \<mapsto> PosInf, 1 \<mapsto> Fin 0],
      priority_mins = [0 \<mapsto> PosInf, 1 \<mapsto> Fin 0],
      perm_suffixed_tag_classes = {},
      def_priority = Fin 0,
      overwritables = [0 \<mapsto> False, 1 \<mapsto> True]\<rparr>"
  by (simp add: example_handler_def init_def example_index_def Let_def lower_def lower_char_def)

text \<open>
  Claim C2. For a valid identity, \<open>set_path_by_priority\<close> changes nothing and returns
  the current priority exactly when the tag is not overwritable, or its priority is
  strictly greater than the proposed one, or (its priority equals the proposed one or the
  tag is pinned) and \<open>override\<close> is off. In every other case \<open>set_path\<close> commits the
  candidate and does not raise: the path it stores for the tag is \<open>committed_path\<close>, the
  normalized candidate or the unique name derived from it, a name no other entry owned;
  the state is the old one with that path committed and the priority of the tag set to
  the proposed one, so the path map sends the new full path to the tag; and the
  proposed priority is returned.
\<close>

theorem set_path_by_priority_decision:
  assumes "get_index_ref s index = Some tag_ref"
  shows "if \<not> get_overwritable s index
            \<or> proposed_priority s priority < get_priority s index NegInf
            \<or> ((get_priority s index NegInf = proposed_priority s priority \<or> indexed tag_ref)
                \<and> \<not> override)
         then set_path_by_priority sanitize s index cand priority override
                = Inr (get_priority s index NegInf, s)
         else (\<exists>new_path s'.
                 set_path sanitize s index cand True True = Inr (new_path, s')
                 \<and> set_path_by_priority sanitize s index cand priority override
                     = Inr (proposed_priority s priority,
                            set_priority s' index (proposed_priority s priority))
                 \<and> get_priority (set_priority s' index (proposed_priority s priority))
                       index NegInf = proposed_priority s priority
                 \<and> new_path
                     = Some (committed_path sanitize s (mask_index (the index)) cand True True
                             @ ''.'' @ lower (class_1 tag_ref))
                 \<and> map_of (path_map s)
                       (committed_path sanitize s (mask_index (the index)) cand True True
                        @ ''.'' @ lower (class_1 tag_ref))
                     \<in> {None, Some (mask_index (the index))}
                 \<and> s' = commit s (mask_index (the index))
                          (committed_path sanitize s (mask_index (the index)) cand True True)
                 \<and> index_map (set_priority s' index (proposed_priority s priority))
                     = (index_map s)[mask_index (the index) := tag_ref
                          \<lparr>path := committed_path sanitize s (mask_index (the index))
                                     cand True True\<rparr>]
                 \<and> path (index_map (set_priority s' index (proposed_priority s priority))
                          ! mask_index (the index))
                     = committed_path sanitize s (mask_index (the index)) cand True True
                 \<and> map_of (path_map (set_priority s' index (proposed_priority s priority)))
                       (committed_path sanitize s (mask_index (the index)) cand True True
                        @ ''.'' @ lower (class_1 tag_ref))
                     = Some (mask_index (the index)))"
proof -
  obtain i where i: "index = Some i" "mask_index i < length (index_map s)"
    "index_map s ! mask_index i = tag_ref"
    using assms by (auto simp: get_index_ref_def split: option.splits if_splits)
  let ?np = "committed_path sanitize s (mask_index i) cand True True"
  let ?p = "proposed_priority s priority"
  have sp: "set_path sanitize s index cand True True
              = Inr (Some (?np @ ''.'' @ lower (class_1 tag_ref)), commit s (mask_index i) ?np)"
    and free: "map_of (path_map s) (?np @ ''.'' @ lower (class_1 tag_ref))
                 \<in> {None, Some (mask_index i)}"
    using set_path_unique_committed [OF i(2), of sanitize cand True] i(1,3) by simp_all
  have prio: "get_priority (set_priority (commit s (mask_index i) ?np) index ?p) index NegInf = ?p"
    using i by (simp add: set_priority_def get_priority_def commit_frame)
  have im: "index_map (set_priority (commit s (mask_index i) ?np) index ?p)
              = (index_map s)[mask_index i := tag_ref\<lparr>path := ?np\<rparr>]"
    using i by (simp add: set_priority_frame commit_frame)
  have pth: "path (index_map (set_priority (commit s (mask_index i) ?np) index ?p) ! mask_index i)
               = ?np"
    unfolding im using i(2) by simp
  have own: "map_of (path_map (set_priority (commit s (mask_index i) ?np) index ?p))
               (?np @ ''.'' @ lower (class_1 tag_ref)) = Some (mask_index i)"
    using commit_owner [of s "mask_index i" ?np] i by (simp add: set_priority_frame)
  have acc: "set_path_by_priority sanitize s index cand priority override
      = (if \<not> get_overwritable s index \<or> ?p < get_priority s index NegInf
            \<or> ((get_priority s index NegInf = ?p \<or> indexed tag_ref) \<and> \<not> override)
         then Inr (get_priority s index NegInf, s)
         else Inr (?p, set_priority (commit s (mask_index i) ?np) index ?p))"
    using assms sp get_will_overwrite_valid [OF assms, of ?p override]
    by (auto simp: set_path_by_priority_def proposed_priority_def Let_def)
  show ?thesis
  proof (cases "\<not> get_overwritable s index \<or> ?p < get_priority s index NegInf
            \<or> ((get_priority s index NegInf = ?p \<or> indexed tag_ref) \<and> \<not> override)")
    case True
    then show ?thesis
      using acc by simp
  next
    case False
    have acc': "set_path_by_priority sanitize s index cand priority override
                  = Inr (?p, set_priority (commit s (mask_index i) ?np) index ?p)"
      unfolding acc by (rule if_not_P [OF False])
    have "set_path sanitize s index cand True True
            = Inr (Some (?np @ ''.'' @ lower (class_1 tag_ref)), commit s (mask_index i) ?np)
          \<and> set_path_by_priority sanitize s index cand priority override
              = Inr (?p, set_priority (commit s (mask_index i) ?np) index ?p)
          \<and> get_priority (set_priority (commit s (mask_index i) ?np) index ?p) index NegInf = ?p
          \<and> Some (?np @ ''.'' @ lower (class_1 tag_ref))
              = Some (?np @ ''.'' @ lower (class_1 tag_ref))
          \<and> map_of (path_map s) (?np @ ''.'' @ lower (class_1 tag_ref))
              \<in> {None, Some (mask_index i)}
          \<and> commit s (mask_index i) ?np = commit s (mask_index i) ?np
          \<and> index_map (set_priority (commit s (mask_index i) ?np) index ?p)
              = (index_map s)[mask_index i := tag_ref\<lparr>path := ?np\<rparr>]
          \<and> path (index_map (set_priority (commit s (mask_index i) ?np) index ?p) ! mask_index i)
              = ?np
          \<and> map_of (path_map (set_priority (commit s (mask_index i) ?np) index ?p))
                (?np @ ''.'' @ lower (class_1 tag_ref)) = Some (mask_index i)"
      using sp acc' prio free im pth own by blast
    then show ?thesis
      using False unfolding i(1) option.sel
      by (simp only: if_False) blast
  qed
qed

theorem set_path_by_priority_decision_witness:
  "get_index_ref example_handler (Some 1) = Some (example_index ! 1)
   \<and> committed_path id example_handler 1 ''X/C'' True True = ''x/c''
   \<and> set_path id example_handler (Some 1) ''X/C'' True True
       = Inr (Some ''x/c.bitmap'', commit example_handler 1 ''x/c'')
   \<and> set_path_by_priority id example_handler (Some 1) ''X/C'' (Some (Fin 1)) False
       = Inr (Fin 1, set_priority (commit example_handler 1 ''x/c'') (Some 1) (Fin 1))
   \<and> get_priority (set_priority (commit example_handler 1 ''x/c'') (Some 1) (Fin 1))
         (Some 1) NegInf = Fin 1
   \<and> path (index_map (set_priority (commit example_handler 1 ''x/c'') (Some 1) (Fin 1)) ! 1)
       = ''x/c''
   \<and> map_of (path_map (set_priority (commit example_handler 1 ''x/c'') (Some 1) (Fin 1)))
         ''x/c.bitmap'' = Some 1"
proof -
  have h: "get_index_ref example_handler (Some 1) = Some (example_index ! 1)"
    by (simp add: get_index_ref_def mask_index_example example_handler_eval example_index_def)
  have ind: "\<not> indexed (example_index ! 1)"
    by (simp add: example_index_def)
  have cls: "lower (class_1 (example_index ! 1)) = ''bitmap''"
    by (simp add: example_index_def lower_def lower_char_def)
  have ow: "get_overwritable example_handler (Some 1)"
    by (simp add: get_overwritable_def mask_index_example example_handler_eval)
  have cur: "get_priority example_handler (Some 1) NegInf = Fin 0"
    by (simp add: get_priority_def mask_index_example example_handler_eval)
  have lt: "\<not> Fin 1 < Fin 0" "Fin 0 \<noteq> Fin 1"
    by (simp_all add: less_priority_def)
  have np: "committed_path id example_handler 1 ''X/C'' True True = ''x/c''"
    by code_simp
  show ?thesis
    using h ind ow cur lt np cls
      set_path_by_priority_decision [OF h, where priority = "Some (Fin 1)"
        and override = False and sanitize = id and cand = "''X/C''"]
    by (auto simp: proposed_priority_def mask_index_example)
qed





text \<open>
  Claim C1, as amended. When the entries of the tag index given to the constructor have
  pairwise distinct normalized full paths, then in every state reached by calls of
  \<open>set_path\<close>, \<open>set_path_by_priority\<close>, \<open>set_priority\<close>, \<open>set_priority_min\<close>,
  \<open>set_overwritable\<close> and the \<open>root_dir_prefix\<close> setter the path map sends the
  normalized full path of every entry to its own identity, and the normalized full paths of the entries are pairwise distinct.
\<close>

theorem path_uniqueness:
  assumes "distinct (map full_path tag_index_array)"
  shows "path_map_consistent
           (run_calls sanitize (init tag_index_array def_prio prios prio_mins perm_classes) calls)
         \<and> distinct (map full_path (index_map
             (run_calls sanitize (init tag_index_array def_prio prios prio_mins perm_classes)
                calls)))"
proof -
  have "path_map_consistent
          (run_calls sanitize (init tag_index_array def_prio prios prio_mins perm_classes) calls)"
    using assms by (intro run_calls_path_map_consistent init_path_map_consistent)
  then show ?thesis
    by (simp add: path_map_consistent_distinct)
qed

theorem path_uniqueness_witness:
  "distinct (map full_path example_index)
   \<and> distinct (map full_path (index_map
       (run_calls id (init example_index (Fin 0) Map.empty Map.empty {})
          [SetPath (Some 1) (''x'' @ [CHR 0x5C] @ ''a'') True False,
           SetPathByPriority (Some 1) (''x'' @ [CHR 0x5C] @ ''a'') (Some (Fin 1)) False])))"
proof -
  have h: "distinct (map full_path example_index)"
    by (simp add: example_index_def full_path_def lower_def lower_char_def)
  show ?thesis
    using h path_uniqueness [OF h, of id "Fin 0" Map.empty Map.empty "{}"
        "[SetPath (Some 1) (''x'' @ [CHR 0x5C] @ ''a'') True False,
          SetPathByPriority (Some 1) (''x'' @ [CHR 0x5C] @ ''a'') (Some (Fin 1)) False]"]
    by simp
qed

text \<open>
  Claim C1 as it is stated fails in the state the constructor builds from an index with
  two entries of the same path and class: both keep that path.
\<close>

theorem path_uniqueness_counterexample:
  "\<not> distinct (map full_path (index_map
       (run_calls id (init duplicate_index (Fin 0) Map.empty Map.empty {}) [])))"
  by (simp add: init_def init_loop_index_map duplicate_index_def del: init_loop.simps)

text \<open>
  Claim C4. Along any sequence of \<open>set_path_by_priority\<close> calls the priority stored
  for a tag never decreases, and after the sequence it is the maximum of the priority
  before it and the priorities of the proposals accepted for the tag.
\<close>

theorem priority_monotone:
  "(\<forall>n m. n \<le> m \<longrightarrow>
      get_priority (run_proposals sanitize s (take n ps)) (Some i) NegInf
        \<le> get_priority (run_proposals sanitize s (take m ps)) (Some i) NegInf)
   \<and> get_priority (run_proposals sanitize s ps) (Some i) NegInf
       = Max (insert (get_priority s (Some i) NegInf)
                (set (accepted sanitize s (mask_index i) ps)))"
proof (intro conjI allI impI)
  fix n m :: nat
  assume "n \<le> m"
  then have "take m ps = take n ps @ drop n (take m ps)"
    by (metis append_take_drop_id min.absorb1 take_take)
  then show "get_priority (run_proposals sanitize s (take n ps)) (Some i) NegInf
        \<le> get_priority (run_proposals sanitize s (take m ps)) (Some i) NegInf"
    using run_proposals_mono [of "run_proposals sanitize s (take n ps)" i sanitize "drop n (take m ps)"]
    by (metis run_proposals_append)
next
  show "get_priority (run_proposals sanitize s ps) (Some i) NegInf
       = Max (insert (get_priority s (Some i) NegInf)
                (set (accepted sanitize s (mask_index i) ps)))"
    by (rule run_proposals_max)
qed

theorem priority_monotone_witness:
  "get_priority (run_proposals id example_handler (take 1 example_proposals)) (Some 1) NegInf
     \<le> get_priority (run_proposals id example_handler (take 2 example_proposals)) (Some 1) NegInf
   \<and> get_priority (run_proposals id example_handler example_proposals) (Some 1) NegInf = Fin 1"
proof -
  have acc: "accepted id example_handler (mask_index 1) example_proposals = [Fin 1]"
    by code_simp
  have cur: "get_priority example_handler (Some 1) NegInf = Fin 0"
    by (simp add: get_priority_def mask_index_example example_handler_eval)
  have mx: "Max {Fin 0, Fin 1} = Fin 1"
    by (simp add: less_eq_priority_def max_def)
  have le: "(1::nat) \<le> 2"
    by simp
  from priority_monotone [of id example_handler example_proposals 1]
  show ?thesis
    using le by (simp only: acc cur mx list.set)
qed

text \<open>
  Claim C9. \<open>get_sub_dir\<close> is to strip the leading components that the directory of
  the tag shares with \<open>root\<close>. The source calls \<open>pop\<close> on the two tuples of parts, so
  as soon as the first components agree it raises \<open>AttributeError\<close>: for tag 1 at
  \<open>x\b\<close> and root \<open>x\<close> the call raises where the claim has it return the empty
  string.
\<close>

theorem get_sub_dir_shared_prefix_raises:
  "get_sub_dir example_handler (Some 1) ''x'' = Inl AttributeError"
  by (simp add: get_sub_dir_def get_index_ref_def mask_index_example example_handler_eval
      example_index_def win_parts_def is_sep_def)


text \<open>
  Claim C5, as amended. A call of the walker on a resolvable tag, with minimum priorities
  in use and a proposed priority given, skips the traversal and returns the priority
  floor of the tag when the tag is in the visited set or the depth is used up, when the
  floor is strictly greater than the proposal, or when the floor equals the proposal and
  both \<open>use_minimum_equal_priorities\<close> and \<open>return_on_equal_min_priority\<close> are set.
  In every other case, so when the floor is strictly less than the proposal, and when it
  equals the proposal with one of the two flags off, it goes on with the full traversal.
\<close>

theorem walker_short_circuit:
  assumes "mask_index tid < length (tag_classes hm)"
    and "kw_use_minimum_priorities kw"
    and "kw_priority kw = Some p"
  shows "heuristic_deprotect (Suc fuel) sanitize table hm st (Some tid) root_dir sub_dir name kw =
     (if mask_index tid \<in> seen st \<or> kw_depth kw < Fin 0
         \<or> p < get_priority_min (handler st) (Some (int (mask_index tid))) PosInf
         \<or> (get_priority_min (handler st) (Some (int (mask_index tid))) PosInf = p
             \<and> kw_use_minimum_equal_priorities kw \<and> kw_return_on_equal_min_priority kw)
      then Some (st, Inr (get_priority_min (handler st) (Some (int (mask_index tid))) PosInf))
      else walk_traverse (heuristic_deprotect fuel sanitize table hm) sanitize table hm
             st tid root_dir sub_dir name kw)"
  using assms by (auto simp: walk_gate_def Let_def)

theorem walker_short_circuit_witness:
  "mask_index 0 < length (tag_classes example_map)
   \<and> kw_use_minimum_priorities equal_floor_kwargs
   \<and> kw_priority equal_floor_kwargs = Some (Fin 0)
   \<and> heuristic_deprotect (Suc 0) id (\<lambda>c. None) example_map example_state (Some 0)
         [] [] ''y'' equal_floor_kwargs
       = Some (example_state, Inr PosInf)"
proof -
  have a: "mask_index 0 < length (tag_classes example_map)"
    by (simp add: mask_index_example example_map_def)
  have b: "kw_use_minimum_priorities equal_floor_kwargs"
    and c: "kw_priority equal_floor_kwargs = Some (Fin 0)"
    by (simp_all add: equal_floor_kwargs_def)
  have floor: "get_priority_min (handler example_state) (Some (int (mask_index 0))) PosInf = PosInf"
    by (simp add: get_priority_min_def mask_index_example example_state_def example_handler_eval)
  have lt: "Fin 0 < PosInf"
    by (simp add: less_priority_def)
  from walker_short_circuit [OF a b c, of 0 id "\<lambda>c. None" example_state "[]" "[]" "''y''"]
  have "heuristic_deprotect (Suc 0) id (\<lambda>c. None) example_map example_state (Some 0)
         [] [] ''y'' equal_floor_kwargs = Some (example_state, Inr PosInf)"
    by (simp only: floor lt) simp
  with a b c show ?thesis
    by (intro conjI)
qed

text \<open>
  Claim C5 as it is stated fails: the floor of tag 1 equals the proposal and
  \<open>return_on_equal_min_priority\<close> is set, yet the walker traverses and renames the tag.
\<close>

theorem walker_short_circuit_counterexample:
  "get_priority_min example_handler (Some 1) PosInf = Fin 0
   \<and> kw_priority equal_floor_kwargs = Some (Fin 0)
   \<and> kw_use_minimum_priorities equal_floor_kwargs
   \<and> kw_return_on_equal_min_priority equal_floor_kwargs
   \<and> map path (index_map (handler example_state)) = [''x'' @ [CHR 0x5C] @ ''a'', ''x'' @ [CHR 0x5C] @ ''b'']
   \<and> map path (index_map (handler (fst (the
         (heuristic_deprotect (Suc 0) id (\<lambda>c. None) example_map example_state (Some 1)
            [] [] ''x/c'' equal_floor_kwargs)))))
       = [''x'' @ [CHR 0x5C] @ ''a'', ''x/c'']"
  by code_simp

text \<open>
  Claim C10. For an identity that is \<open>None\<close>, or whose low 16 bits lie outside the tag
  index, \<open>set_path_by_priority\<close> returns \<open>-INF\<close> and leaves the state as it is,
  while the walker over the same index returns \<open>INF\<close>, also without a change.
\<close>

theorem unresolvable_identity:
  assumes "tag_id = None \<or> (\<exists>i. tag_id = Some i \<and> length (index_map (handler st)) \<le> mask_index i)"
    and "length (tag_classes hm) = length (index_map (handler st))"
  shows "set_path_by_priority sanitize (handler st) tag_id cand priority override
           = Inr (NegInf, handler st)
         \<and> heuristic_deprotect (Suc fuel) sanitize table hm st tag_id root_dir sub_dir name kw
           = Some (st, Inr PosInf)"
  using assms by (auto simp: set_path_by_priority_def get_index_ref_def)

theorem unresolvable_identity_witness:
  "length (index_map (handler example_state)) \<le> mask_index 7
   \<and> length (tag_classes example_map) = length (index_map (handler example_state))
   \<and> set_path_by_priority id (handler example_state) (Some 7) ''x/c'' (Some (Fin 1)) True
       = Inr (NegInf, handler example_state)
   \<and> heuristic_deprotect (Suc 0) id (\<lambda>c. None) example_map example_state (Some 7)
         [] [] ''x/c'' default_kwargs
       = Some (example_state, Inr PosInf)"
proof -
  have a: "length (index_map (handler example_state)) \<le> mask_index 7"
    by (simp add: mask_index_def example_state_def example_handler_eval example_index_def)
  have b: "length (tag_classes example_map) = length (index_map (handler example_state))"
    by (simp add: example_map_def example_state_def example_handler_eval example_index_def)
  have c: "Some 7 = None \<or> (\<exists>i. Some 7 = Some i
      \<and> length (index_map (handler example_state)) \<le> mask_index i)"
    using a by simp
  from unresolvable_identity [OF c b, of id "''x/c''" "Some (Fin 1)" True 0 "\<lambda>c. None"
      "[]" "[]" "''x/c''" default_kwargs]
  show ?thesis
    using a b by simp
qed





text \<open>
  Claim C8. When the first loop of \<open>shorten_paths\<close>, with the paths before it put
  into the trie, comes to a path whose number of pieces less one, times four, exceeds a
  budget that is not negative, the call ends there: with \<open>print_errors\<close> off it
  raises the nesting error, with \<open>print_errors\<close> on it prints the message and
  returns, the state as it was. When no path of the map trips the bound, the call
  neither raises that error nor prints that message.
\<close>

theorem nesting_check:
  "(path_map s = pre @ item # post
      \<and> build_trie sanitize s max_len pre [[], []] = Built h
      \<and> too_nested max_len (win_parts (sanitize (lower (fst item))))
      \<and> 0 \<le> max_len
    \<longrightarrow> shorten_paths sanitize s max_len do_printout print_errors
          = Some (if print_errors then Inr (s, [TooNested max_len]) else Inl PathTooNested))
   \<and> ((\<forall>item\<in>set (path_map s).
          \<not> too_nested max_len (win_parts (sanitize (lower (fst item)))))
    \<longrightarrow> shorten_paths sanitize s max_len do_printout print_errors \<noteq> Some (Inl PathTooNested)
        \<and> (\<forall>s' out. shorten_paths sanitize s max_len do_printout print_errors
                       = Some (Inr (s', out))
             \<longrightarrow> TooNested max_len \<notin> set out))"
proof (intro conjI impI)
  assume a: "path_map s = pre @ item # post
      \<and> build_trie sanitize s max_len pre [[], []] = Built h
      \<and> too_nested max_len (win_parts (sanitize (lower (fst item))))
      \<and> 0 \<le> max_len"
  then have "trie_add sanitize s max_len h item = Nested"
    by (intro trie_add_nested) simp_all
  then have "build_trie sanitize s max_len (path_map s) [[], []] = Nested"
    using a by (simp add: build_trie_append)
  then show "shorten_paths sanitize s max_len do_printout print_errors
          = Some (if print_errors then Inr (s, [TooNested max_len]) else Inl PathTooNested)"
    by (simp add: shorten_paths_def)
next
  assume b: "\<forall>item\<in>set (path_map s).
          \<not> too_nested max_len (win_parts (sanitize (lower (fst item))))"
  note bt = build_trie_not_nested [OF b, of s "[[], []]"]
  show "shorten_paths sanitize s max_len do_printout print_errors \<noteq> Some (Inl PathTooNested)"
    using bt
    by (auto simp: shorten_paths_def split: phase1.splits option.splits sum.splits if_splits
        dest: shorten_loop_error apply_loop_error)
  show "\<forall>s' out. shorten_paths sanitize s max_len do_printout print_errors
                       = Some (Inr (s', out))
             \<longrightarrow> TooNested max_len \<notin> set out"
    using bt
    by (auto simp: shorten_paths_def over_limit_warnings_no_nested
        split: phase1.splits option.splits sum.splits if_splits)
qed

theorem nesting_check_witness:
  "path_map example_handler
     = [] @ (''x'' @ [CHR 0x5C] @ ''a.bitmap'', 0) # [(''x'' @ [CHR 0x5C] @ ''b.bitmap'', 1)]
   \<and> build_trie id example_handler 2 [] [[], []] = Built [[], []]
   \<and> too_nested 2 (win_parts (id (lower (fst (''x'' @ [CHR 0x5C] @ ''a.bitmap'', 0::nat)))))
   \<and> (0::int) \<le> 2
   \<and> shorten_paths id example_handler 2 False True
       = Some (Inr (example_handler, [TooNested 2]))
   \<and> \<not> too_nested 30 (win_parts (id (lower (''x'' @ [CHR 0x5C] @ ''a.bitmap''))))
   \<and> \<not> too_nested 30 (win_parts (id (lower (''x'' @ [CHR 0x5C] @ ''b.bitmap''))))
   \<and> shorten_paths id example_handler 30 False True \<noteq> Some (Inl PathTooNested)"
proof -
  have a: "path_map example_handler
     = [] @ (''x'' @ [CHR 0x5C] @ ''a.bitmap'', 0) # [(''x'' @ [CHR 0x5C] @ ''b.bitmap'', 1)]"
    by (simp add: example_handler_eval)
  have b: "build_trie id example_handler 2 [] [[], []] = Built [[], []]"
    by simp
  have c: "too_nested 2 (win_parts (id (lower (fst (''x'' @ [CHR 0x5C] @ ''a.bitmap'', 0::nat)))))"
    by code_simp
  have d: "(0::int) \<le> 2"
    by simp
  have e1: "\<not> too_nested 30 (win_parts (id (lower (''x'' @ [CHR 0x5C] @ ''a.bitmap''))))"
    and e2: "\<not> too_nested 30 (win_parts (id (lower (''x'' @ [CHR 0x5C] @ ''b.bitmap''))))"
    by code_simp+
  have e: "\<forall>item\<in>set (path_map example_handler).
         \<not> too_nested 30 (win_parts (id (lower (fst item))))"
    unfolding a using e1 e2 by simp
  from nesting_check [of example_handler "[]" "(''x'' @ [CHR 0x5C] @ ''a.bitmap'', 0)"
      "[(''x'' @ [CHR 0x5C] @ ''b.bitmap'', 1)]" id 2 "[[], []]" False True]
  have r1: "shorten_paths id example_handler 2 False True
       = Some (Inr (example_handler, [TooNested 2]))"
    using a b c d by simp
  from nesting_check [of example_handler _ _ _ id 30 _ False True]
  have r2: "shorten_paths id example_handler 30 False True \<noteq> Some (Inl PathTooNested)"
    using e by blast
  from a b c d r1 e1 e2 r2 show ?thesis
    by (intro conjI)
qed

text \<open>
  Claim C7, as amended. When \<open>shorten_paths\<close> returns with the diagnostic printout on,
  every entry whose path is then longer than the budget has been reported by an
  over-limit warning, unless the nesting message has been printed instead. The budget
  itself is not kept: a pinned entry is never renamed, and without the printout its
  path stays over the budget with no report.
\<close>

theorem over_budget_reported:
  assumes "shorten_paths sanitize s max_len True print_errors = Some (Inr (s', out))"
    and "i < length (index_map s')"
    and "max_len < int (length (path (index_map s' ! i)))"
  shows "OverLimit (path (index_map s' ! i)) \<in> set out \<or> TooNested max_len \<in> set out"
  using assms
  by (auto simp: shorten_paths_def over_limit_warnings_def
      split: phase1.splits option.splits sum.splits if_splits)

theorem over_budget_reported_witness:
  "shorten_paths id pinned_long_handler 5 True False
     = Some (Inr (pinned_long_handler
                    \<lparr>path_map := remake_path_map (index_map pinned_long_handler) 0 []\<rparr>,
                  [OverLimit (''x'' @ [CHR 0x5C] @ ''abcdefgh'')]))
   \<and> 0 < length (index_map pinned_long_handler)
   \<and> (5::int) < int (length (path (index_map pinned_long_handler ! 0)))
   \<and> OverLimit (path (index_map pinned_long_handler ! 0))
       \<in> set [OverLimit (''x'' @ [CHR 0x5C] @ ''abcdefgh'')]"
proof -
  let ?s' = "pinned_long_handler
               \<lparr>path_map := remake_path_map (index_map pinned_long_handler) 0 []\<rparr>"
  have a: "shorten_paths id pinned_long_handler 5 True False
     = Some (Inr (?s', [OverLimit (''x'' @ [CHR 0x5C] @ ''abcdefgh'')]))"
    by (rule pinned_long_run)
  have b: "0 < length (index_map ?s')"
    by (simp add: pinned_long_index_map)
  have c: "(5::int) < int (length (path (index_map ?s' ! 0)))"
    by (simp add: pinned_long_index_map)
  from over_budget_reported [OF a b c] a b c show ?thesis
    by simp
qed

text \<open>
  Claim C7 as it is stated fails for the pinned tag: with a budget of 5 and no printout
  the call returns, prints nothing, and the path of 10 characters is still there.
\<close>

theorem over_budget_counterexample:
  "shorten_paths id pinned_long_handler 5 False False \<noteq> None
   \<and> \<not> isl (the (shorten_paths id pinned_long_handler 5 False False))
   \<and> snd (projr (the (shorten_paths id pinned_long_handler 5 False False))) = []
   \<and> map path (index_map (fst (projr (the (shorten_paths id pinned_long_handler 5 False False)))))
       = [''x'' @ [CHR 0x5C] @ ''abcdefgh'']
   \<and> (5::int) < int (length (''x'' @ [CHR 0x5C] @ ''abcdefgh''))"
  by code_simp

end
